theory Spec2Isabelle
  imports Complex_Main "HOL-Library.Log_Nat" "HOL-Library.Sublist"
begin

section \<open>Numbers and coordinates (src/types/google.ts)\<close>

text \<open>
  A JavaScript \<open>number\<close> is an IEEE 754 binary64 value. A finite double is modelled as
  the rational it denotes, and every arithmetic operation of the code is the exact
  operation followed by \<open>binary64\<close>, the rounding to the nearest double, a tie going to
  the even significand. \<open>ilog2 q\<close> is the exponent \<open>e\<close> with \<open>2^e \<le> q < 2^(e+1)\<close>
  of a positive \<open>q\<close>; the exponent of a double is never below -1022, where the
  subnormal numbers begin, and the doubles of one exponent are the multiples of
  \<open>2^(e-52)\<close>. Overflow to \<open>Infinity\<close> is not modelled: \<open>is_double\<close> holds of the
  rationals that are finite doubles, below \<open>2^1024\<close>.
\<close>

definition ilog2 :: "rat \<Rightarrow> int" where
  "ilog2 q =
     (let (a, b) = quotient_of q; d = bitlen a - bitlen b
      in if 2 powi d \<le> q then d else d - 1)"

definition expo :: "rat \<Rightarrow> int" where
  "expo q = max (ilog2 \<bar>q\<bar>) (- 1022)"

definition round_half_even :: "rat \<Rightarrow> int" where
  "round_half_even v =
     (let n = \<lfloor>v\<rfloor>; f = v - of_int n
      in if f < 1 / 2 then n else if 1 / 2 < f then n + 1
         else if even n then n else n + 1)"

definition binary64 :: "rat \<Rightarrow> rat" where
  "binary64 q =
     (if q = 0 then 0
      else let u = 2 powi (expo q - 52)
           in of_int (round_half_even (q / u)) * u)"

definition is_double :: "rat \<Rightarrow> bool" where
  "is_double q = (binary64 q = q \<and> \<bar>q\<bar> < 2 ^ 1024)"

text \<open>
  \<open>Math.round\<close> gives the integer nearest to its argument, a tie going up; no rounding
  to a double happens inside it.
\<close>

definition Math_round :: "rat \<Rightarrow> int" where
  "Math_round v = \<lfloor>v + 1 / 2\<rfloor>"

definition denormalizeX :: "rat \<Rightarrow> rat \<Rightarrow> int" where
  "denormalizeX x screenWidth = Math_round (binary64 (binary64 (x / 1000) * screenWidth))"

definition denormalizeY :: "rat \<Rightarrow> rat \<Rightarrow> int" where
  "denormalizeY y screenHeight = Math_round (binary64 (binary64 (y / 1000) * screenHeight))"

section \<open>Actions, events and conversation contents\<close>

text \<open>
  The \<open>args\<close> object of an action: every field the code reads, each absent
  (\<open>None\<close>, JavaScript's \<open>undefined\<close>) or of the type src/types/google.ts declares for
  it. The fields \<open>x\<close>, \<open>y\<close>, \<open>text\<close>, ... are written with the prefix \<open>arg_\<close>.
\<close>

record args =
  arg_x :: "rat option"
  arg_y :: "rat option"
  arg_destination_x :: "rat option"
  arg_destination_y :: "rat option"
  arg_magnitude :: "rat option"
  arg_text :: "string option"
  arg_keys :: "string option"
  arg_url :: "string option"
  arg_direction :: "string option"
  arg_press_enter :: "bool option"
  arg_clear_before_typing :: "bool option"

definition no_args :: args where
  "no_args = \<lparr>arg_x = None, arg_y = None, arg_destination_x = None,
     arg_destination_y = None, arg_magnitude = None, arg_text = None, arg_keys = None,
     arg_url = None, arg_direction = None, arg_press_enter = None,
     arg_clear_before_typing = None\<rparr>"

record GeminiComputerAction =
  name :: string
  args :: args

text \<open>The events of src/types/api.ts that the Google streamer yields.\<close>

datatype SSEEvent =
    DONE "string option"
  | REASONING string
  | ACTION GeminiComputerAction
  | ACTION_COMPLETED
  | ERROR string

text \<open>The parts of a conversation turn, with the optional fields the code reads.\<close>

datatype functionCall = FunctionCall (call_name: "string option") (call_args: "args option")

datatype functionResponse =
  FunctionResponse (response_name: "string option") (response_url: "string option")

datatype inlineData = InlineData (mimeType: string) (data: string)

record part =
  part_text :: "string option"
  functionCall :: "functionCall option"
  functionResponse :: "functionResponse option"
  inlineData :: "inlineData option"

definition no_part :: part where
  "no_part = \<lparr>part_text = None, functionCall = None, functionResponse = None,
     inlineData = None\<rparr>"

record content =
  role :: string
  parts :: "part list option"

record candidate =
  content :: "content option"

record response =
  candidates :: "candidate list option"

section \<open>The world outside the streamer\<close>

text \<open>
  What a thrown JavaScript value is to the \<open>catch\<close> block of \<open>stream\<close>: an instance
  of \<open>Error\<close> with its message, or anything else.
\<close>

datatype thrown = ErrorObj string | NonError

text \<open>
  Every call that leaves the streamer is recorded, in order, in the run's list of
  effects. The text of a log line is not recorded, only its level.
\<close>

datatype effect =
    TakeScreenshot
  | GenerateContent nat
  | LeftClick "int option" "int option"
  | MoveMouse "int option" "int option"
  | Press "string option"
  | Write "string option"
  | Scroll string int
  | Drag "int option \<times> int option" "int option \<times> int option"
  | SetTimeout nat
  | LogDebug
  | LogWarning
  | LogError

text \<open>
  The environment of one run. The desktop, the model client and the screenshot
  capability are outside the repository, so each is a function that says what the call
  returns or throws: \<open>desktop_throws\<close> and \<open>takeScreenshot\<close> see the effects so far,
  \<open>generateContent\<close> the iteration number and the conversation sent, \<open>aborted\<close> is
  \<open>signal.aborted\<close> as read at the top of the given iteration. \<open>number_toString\<close>
  renders a number inside a template string.
\<close>

record env =
  desktop_throws :: "effect list \<Rightarrow> effect \<Rightarrow> thrown option"
  generateContent :: "nat \<Rightarrow> content list \<Rightarrow> thrown + response option"
  takeScreenshot :: "effect list \<Rightarrow> thrown + string"
  aborted :: "nat \<Rightarrow> bool"
  getOriginalResolution :: "rat \<times> rat"
  number_toString :: "rat \<Rightarrow> string"

text \<open>
  The state of a run: the events yielded so far, the effects performed so far, the
  conversation \<open>contents\<close> and the field \<open>this.currentUrl\<close>.
\<close>

record run_state =
  events :: "SSEEvent list"
  effects :: "effect list"
  contents :: "content list"
  currentUrl :: "string option"

text \<open>
  An asynchronous step either returns a value or throws, and leaves a state in both
  cases: what was yielded before a throw stays yielded.
\<close>

type_synonym 'a io = "run_state \<Rightarrow> (thrown + 'a) \<times> run_state"

definition io_return :: "'a \<Rightarrow> 'a io" where
  "io_return v s = (Inr v, s)"

definition io_throw :: "thrown \<Rightarrow> 'a io" where
  "io_throw e s = (Inl e, s)"

definition io_bind :: "'a io \<Rightarrow> ('a \<Rightarrow> 'b io) \<Rightarrow> 'b io" where
  "io_bind m f s = (case m s of (Inl e, s') \<Rightarrow> (Inl e, s') | (Inr v, s') \<Rightarrow> f v s')"

definition io_seq :: "unit io \<Rightarrow> 'b io \<Rightarrow> 'b io" where
  "io_seq m n = io_bind m (\<lambda>_. n)"

definition io_catch :: "'a io \<Rightarrow> (thrown \<Rightarrow> 'a io) \<Rightarrow> 'a io" where
  "io_catch m h s = (case m s of (Inl e, s') \<Rightarrow> h e s' | (Inr v, s') \<Rightarrow> (Inr v, s'))"

definition yield :: "SSEEvent \<Rightarrow> unit io" where
  "yield e s = (Inr (), s\<lparr>events := events s @ [e]\<rparr>)"

definition perform :: "effect \<Rightarrow> unit io" where
  "perform c s = (Inr (), s\<lparr>effects := effects s @ [c]\<rparr>)"

definition desktop_call :: "env \<Rightarrow> effect \<Rightarrow> unit io" where
  "desktop_call env c s =
     (case desktop_throws env (effects s) c of
        Some e \<Rightarrow> (Inl e, s\<lparr>effects := effects s @ [c]\<rparr>)
      | None \<Rightarrow> (Inr (), s\<lparr>effects := effects s @ [c]\<rparr>))"

definition screenshot :: "env \<Rightarrow> string io" where
  "screenshot env s =
     (case takeScreenshot env (effects s) of
        Inl e \<Rightarrow> (Inl e, s\<lparr>effects := effects s @ [TakeScreenshot]\<rparr>)
      | Inr d \<Rightarrow> (Inr d, s\<lparr>effects := effects s @ [TakeScreenshot]\<rparr>))"

definition call_model :: "env \<Rightarrow> nat \<Rightarrow> response option io" where
  "call_model env k s =
     (case generateContent env k (contents s) of
        Inl e \<Rightarrow> (Inl e, s\<lparr>effects := effects s @ [GenerateContent k]\<rparr>)
      | Inr r \<Rightarrow> (Inr r, s\<lparr>effects := effects s @ [GenerateContent k]\<rparr>))"

definition set_currentUrl :: "string option \<Rightarrow> unit io" where
  "set_currentUrl u s = (Inr (), s\<lparr>currentUrl := u\<rparr>)"

definition push_content :: "content \<Rightarrow> unit io" where
  "push_content c s = (Inr (), s\<lparr>contents := contents s @ [c]\<rparr>)"

section \<open>The streamer (src/lib/streaming/google.ts)\<close>

subsection \<open>getActionSettleDelay\<close>

text \<open>
  \<open>action.args.press_enter ? 3000 : action.args.text.length * 50\<close>: the condition is
  JavaScript truthiness, so an absent \<open>press_enter\<close> takes the second branch, and reading
  \<open>length\<close> of an absent \<open>text\<close> throws a TypeError. The length of a string is the
  number of its characters, which for ASCII text is what JavaScript counts.
\<close>

definition getActionSettleDelay :: "GeminiComputerAction \<Rightarrow> thrown + nat" where
  "getActionSettleDelay action =
     (if name action = ''click_at'' \<or> name action = ''hover_at'' then Inr 400
      else if name action = ''type_text_at'' then
        (if arg_press_enter (args action) = Some True then Inr 3000
         else (case arg_text (args action) of
                 None \<Rightarrow> Inl (ErrorObj ''Cannot read properties of undefined'')
               | Some t \<Rightarrow> Inr (length t * 50)))
      else if name action = ''key_combination'' then Inr 300
      else if name action = ''scroll_document'' \<or> name action = ''scroll_at'' then Inr 200
      else if name action = ''drag_and_drop'' then Inr 300
      else if name action = ''navigate'' then Inr 800
      else Inr 300)"

subsection \<open>executeAction\<close>

text \<open>
  A coordinate that is absent denormalizes to NaN, written \<open>None\<close>. The \<open>switch\<close>
  is \<open>execute_switch\<close>; \<open>executeAction\<close> wraps it in the \<open>try\<close> whose \<open>catch\<close> logs
  the error and throws it again.
\<close>

definition execute_switch :: "env \<Rightarrow> GeminiComputerAction \<Rightarrow> unit io" where
  "execute_switch env action =
     (let resolution = getOriginalResolution env;
          a = args action;
          actualX = map_option (\<lambda>x. denormalizeX x (fst resolution)) (arg_x a);
          actualY = map_option (\<lambda>y. denormalizeY y (snd resolution)) (arg_y a)
      in
      if name action = ''open_web_browser'' then
        io_seq (perform LogDebug) (set_currentUrl (Some ''about:blank''))
      else if name action = ''wait_5_seconds'' then
        io_seq (perform (SetTimeout 5000)) (perform LogDebug)
      else if name action = ''go_back'' then perform LogWarning
      else if name action = ''go_forward'' then perform LogWarning
      else if name action = ''search'' then perform LogWarning
      else if name action = ''navigate'' then
        io_seq (set_currentUrl (arg_url a)) (perform LogDebug)
      else if name action = ''click_at'' then
        io_seq (desktop_call env (LeftClick actualX actualY)) (perform LogDebug)
      else if name action = ''hover_at'' then
        io_seq (desktop_call env (MoveMouse actualX actualY)) (perform LogDebug)
      else if name action = ''type_text_at'' then
        io_seq (desktop_call env (LeftClick actualX actualY))
       (io_seq (if arg_clear_before_typing a \<noteq> Some False then
                  io_seq (desktop_call env (Press (Some ''Control+a'')))
                         (desktop_call env (Press (Some ''Backspace'')))
                else io_return ())
       (io_seq (desktop_call env (Write (arg_text a)))
       (io_seq (if arg_press_enter a \<noteq> Some False then
                  desktop_call env (Press (Some ''Enter''))
                else io_return ())
               (perform LogDebug))))
      else if name action = ''key_combination'' then
        io_seq (desktop_call env (Press (arg_keys a))) (perform LogDebug)
      else if name action = ''scroll_document'' then
        (case arg_direction a of
           None \<Rightarrow> perform LogWarning
         | Some direction \<Rightarrow>
             if direction = ''up'' \<or> direction = ''down'' then
               io_seq (desktop_call env (Scroll direction 500)) (perform LogDebug)
             else perform LogWarning)
      else if name action = ''scroll_at'' then
        io_seq (desktop_call env (LeftClick actualX actualY))
          (let magnitude = (case arg_magnitude a of
                              None \<Rightarrow> 800
                            | Some m \<Rightarrow> if m = 0 then 800 else m);
               actualMagnitude = Math_round (binary64 (binary64 (magnitude / 1000) * 500))
           in case arg_direction a of
                None \<Rightarrow> perform LogWarning
              | Some direction \<Rightarrow>
                  if direction = ''up'' \<or> direction = ''down'' then
                    io_seq (desktop_call env (Scroll direction actualMagnitude))
                           (perform LogDebug)
                  else perform LogWarning)
      else if name action = ''drag_and_drop'' then
        (let startX = actualX;
             startY = actualY;
             endX = map_option (\<lambda>x. denormalizeX x (fst resolution)) (arg_destination_x a);
             endY = map_option (\<lambda>y. denormalizeY y (snd resolution)) (arg_destination_y a)
         in io_seq (desktop_call env (Drag (startX, startY) (endX, endY)))
                   (perform LogDebug))
      else perform LogWarning)"

definition executeAction :: "env \<Rightarrow> GeminiComputerAction \<Rightarrow> unit io" where
  "executeAction env action =
     io_catch (execute_switch env action)
       (\<lambda>error. io_seq (perform LogError) (io_throw error))"

subsection \<open>Strings\<close>

fun starts_with :: "string \<Rightarrow> string \<Rightarrow> bool" where
  "starts_with s [] = True"
| "starts_with [] (c # cs) = False"
| "starts_with (a # s) (c # cs) = (a = c \<and> starts_with s cs)"

text \<open>
  \<open>s.includes(sub)\<close>, named \<open>str_includes\<close> here: \<open>sub\<close> occurs in \<open>s\<close> as a
  contiguous substring.
\<close>

fun str_includes :: "string \<Rightarrow> string \<Rightarrow> bool" where
  "str_includes [] sub = (sub = [])"
| "str_includes (a # s) sub = (starts_with (a # s) sub \<or> str_includes s sub)"

text \<open>
  \<open>s.trim()\<close> removes white space at both ends. A \<open>char\<close> is a byte, so the white
  space here is the ASCII part of JavaScript's: tab, line feed, vertical tab, form feed,
  carriage return and space.
\<close>

definition isspace :: "char \<Rightarrow> bool" where
  "isspace c = (c \<in> set [CHR 0x09, CHR 0x0A, CHR 0x0B, CHR 0x0C, CHR 0x0D, CHR 0x20])"

definition trim :: "string \<Rightarrow> string" where
  "trim s = rev (dropWhile isspace (rev (dropWhile isspace s)))"

subsection \<open>The body of one iteration\<close>

datatype loop_ctl = Continue | Break

text \<open>
  \<open>!name || !args\<close> skips a call whose name is absent or empty or whose args are
  absent; otherwise the action is \<open>{name, args}\<close>.
\<close>

definition valid_call :: "part \<Rightarrow> GeminiComputerAction option" where
  "valid_call p =
     (case functionCall p of
        None \<Rightarrow> None
      | Some fc \<Rightarrow>
          (case call_name fc of
             None \<Rightarrow> None
           | Some n \<Rightarrow>
               if n = [] then None
               else (case call_args fc of
                       None \<Rightarrow> None
                     | Some a \<Rightarrow> Some \<lparr>name = n, args = a\<rparr>)))"

text \<open>The \<open>for\<close> loop over the function calls of one model turn.\<close>

fun for_calls ::
  "env \<Rightarrow> part list \<Rightarrow> GeminiComputerAction list \<Rightarrow> GeminiComputerAction list io" where
  "for_calls env [] executedActions = io_return executedActions"
| "for_calls env (p # ps) executedActions =
     (case valid_call p of
        None \<Rightarrow> io_seq (perform LogWarning) (for_calls env ps executedActions)
      | Some action \<Rightarrow>
          io_seq (yield (ACTION action))
         (io_seq (executeAction env action)
         (io_seq (yield ACTION_COMPLETED)
                 (for_calls env ps (executedActions @ [action])))))"

text \<open>
  \<open>executedActions.map(getActionSettleDelay)\<close>: the delays in order, or the first
  throw.
\<close>

fun settle_delays :: "GeminiComputerAction list \<Rightarrow> thrown + nat list" where
  "settle_delays [] = Inr []"
| "settle_delays (a # as) =
     (case getActionSettleDelay a of
        Inl e \<Rightarrow> Inl e
      | Inr d \<Rightarrow> (case settle_delays as of Inl e \<Rightarrow> Inl e | Inr ds \<Rightarrow> Inr (d # ds)))"

text \<open>
  The wait for the UI to settle: \<open>Math.max\<close> of the delays, taken only when the list is
  not empty, then one \<open>setTimeout\<close>.
\<close>

definition settle :: "GeminiComputerAction list \<Rightarrow> unit io" where
  "settle executedActions =
     (if executedActions \<noteq> [] then
        (case settle_delays executedActions of
           Inl e \<Rightarrow> io_throw e
         | Inr [] \<Rightarrow> io_return ()
         | Inr (d # ds) \<Rightarrow> perform (SetTimeout (fold max ds d)))
      else io_return ())"

definition response_part :: "string option \<Rightarrow> part \<Rightarrow> part" where
  "response_part url p =
     no_part\<lparr>functionResponse :=
       Some (FunctionResponse
               (case functionCall p of None \<Rightarrow> None | Some fc \<Rightarrow> call_name fc) url)\<rparr>"

definition image_part :: "string \<Rightarrow> part" where
  "image_part screenshotBase64 =
     no_part\<lparr>inlineData := Some (InlineData ''image/png'' screenshotBase64)\<rparr>"

definition push_responses :: "part list \<Rightarrow> string \<Rightarrow> unit io" where
  "push_responses functionCalls screenshotBase64 s =
     push_content
       \<lparr>role = ''user'',
        parts = Some (map (response_part (currentUrl s)) functionCalls
                      @ [image_part screenshotBase64])\<rparr> s"

text \<open>
  The extraction of the reasoning text: the parts with a non-empty \<open>text\<close>, joined,
  are yielded as \<open>REASONING\<close> unless the text is empty after \<open>trim\<close>.
\<close>

definition yield_reasoning :: "part list \<Rightarrow> unit io" where
  "yield_reasoning ps =
     (let textParts = filter (\<lambda>p. part_text p \<noteq> None \<and> part_text p \<noteq> Some []) ps
      in if textParts \<noteq> [] then
           (let reasoningText =
                  concat (map (\<lambda>p. case part_text p of None \<Rightarrow> [] | Some t \<Rightarrow> t) textParts)
            in if trim reasoningText \<noteq> [] then yield (REASONING reasoningText)
               else io_return ())
         else io_return ())"

text \<open>The loop body from the extraction of the reasoning text to its end.\<close>

definition process_parts :: "env \<Rightarrow> content \<Rightarrow> part list \<Rightarrow> loop_ctl io" where
  "process_parts env cont ps =
     io_seq (yield_reasoning ps)
       (let functionCalls = filter (\<lambda>p. functionCall p \<noteq> None) ps
        in if functionCalls = [] then io_seq (yield (DONE None)) (io_return Break)
           else
             io_bind (for_calls env functionCalls []) (\<lambda>executedActions.
             io_seq (settle executedActions)
            (io_bind (screenshot env) (\<lambda>screenshotBase64.
             io_seq (push_content cont)
            (io_seq (push_responses functionCalls screenshotBase64)
                    (io_return Continue))))))"

text \<open>
  \<open>!response?.candidates || response.candidates.length === 0\<close> and
  \<open>!content?.parts\<close>: the first candidate and its parts, when there are any.
\<close>

definition first_candidate :: "response option \<Rightarrow> candidate option" where
  "first_candidate r =
     (case r of
        None \<Rightarrow> None
      | Some resp \<Rightarrow>
          (case candidates resp of None \<Rightarrow> None | Some [] \<Rightarrow> None | Some (c # _) \<Rightarrow> Some c))"

definition content_parts :: "candidate \<Rightarrow> (content \<times> part list) option" where
  "content_parts c =
     (case content c of
        None \<Rightarrow> None
      | Some cont \<Rightarrow> (case parts cont of None \<Rightarrow> None | Some ps \<Rightarrow> Some (cont, ps)))"

text \<open>
  The loop body, for the value \<open>iterationCount\<close> has after \<open>iterationCount++\<close>.
  \<open>Break\<close> is the \<open>break\<close> statement; \<open>Continue\<close> is reaching the end of the body.
\<close>

definition iteration :: "env \<Rightarrow> nat \<Rightarrow> loop_ctl io" where
  "iteration env iterationCount =
     (if aborted env iterationCount then
        io_seq (yield (DONE (Some ''Generation stopped by user''))) (io_return Break)
      else
        io_seq (perform LogDebug)
       (io_bind (call_model env iterationCount) (\<lambda>response.
          case first_candidate response of
            None \<Rightarrow> io_seq (yield (DONE (Some ''No response from model''))) (io_return Break)
          | Some candidate \<Rightarrow>
              (case content_parts candidate of
                 None \<Rightarrow>
                   io_seq (yield (DONE (Some ''Empty response from model'')))
                          (io_return Break)
               | Some (cont, ps) \<Rightarrow> process_parts env cont ps))))"

subsection \<open>The loop and the stream\<close>

definition MAX_ITERATIONS :: nat where
  "MAX_ITERATIONS = 50"

text \<open>
  \<open>while (continueLoop && iterationCount < MAX_ITERATIONS)\<close>, started with the given
  value of \<open>iterationCount\<close>; \<open>continueLoop\<close> is never assigned after its
  initialisation to \<open>true\<close>. The result is the value of \<open>iterationCount\<close> when the loop
  is left.
\<close>

function agent_loop :: "env \<Rightarrow> nat \<Rightarrow> nat io" where
  "agent_loop env iterationCount s =
     (if iterationCount < MAX_ITERATIONS then
        (case iteration env (Suc iterationCount) s of
           (Inl e, s') \<Rightarrow> (Inl e, s')
         | (Inr Break, s') \<Rightarrow> (Inr (Suc iterationCount), s')
         | (Inr Continue, s') \<Rightarrow> agent_loop env (Suc iterationCount) s')
      else (Inr iterationCount, s))"
  by pat_completeness auto
termination
  by (relation "measure (\<lambda>(env, iterationCount, s). MAX_ITERATIONS - iterationCount)") auto

text \<open>What follows the loop: the check of the iteration limit and the last \<open>DONE\<close>.\<close>

definition after_loop :: "nat \<Rightarrow> unit io" where
  "after_loop iterationCount =
     io_seq (if iterationCount \<ge> MAX_ITERATIONS then
               yield (ERROR ''Maximum iteration limit reached. Task may be too complex.'')
             else io_return ())
            (yield (DONE None))"

definition QUOTA_MESSAGE :: string where
  "QUOTA_MESSAGE =
     ''Gemini API quota exceeded. Please try again later or use your own API key.''"

definition AUTH_MESSAGE :: string where
  "AUTH_MESSAGE = ''Invalid Gemini API key. Please check your GEMINI_API_KEY.''"

definition SERVICE_MESSAGE :: string where
  "SERVICE_MESSAGE = ''An error occurred with the AI service. Please try again.''"

text \<open>The content of the \<open>ERROR\<close> event the \<open>catch\<close> block yields.\<close>

definition error_content :: "thrown \<Rightarrow> string" where
  "error_content error =
     (case error of
        ErrorObj message \<Rightarrow>
          if str_includes message ''quota'' \<or> str_includes message ''429''
             \<or> str_includes message ''RESOURCE_EXHAUSTED'' then QUOTA_MESSAGE
          else if str_includes message ''API key'' \<or> str_includes message ''API_KEY''
          then AUTH_MESSAGE
          else ''Error: '' @ message
      | NonError \<Rightarrow> SERVICE_MESSAGE)"

definition catch_block :: "thrown \<Rightarrow> unit io" where
  "catch_block error =
     io_seq (perform LogError)
    (io_seq (yield (ERROR (error_content error))) (yield (DONE None)))"

text \<open>
  The \<open>try\<close> block from the loop on, started with a given \<open>iterationCount\<close>, under the
  \<open>catch\<close> block.
\<close>

definition run_loop :: "env \<Rightarrow> nat \<Rightarrow> unit io" where
  "run_loop env iterationCount =
     io_catch (io_bind (agent_loop env iterationCount) after_loop) catch_block"

text \<open>
  The messages of the chat history are pairs of a role and a content. \<open>contents\<close>
  starts empty in every run.
\<close>

definition initial_contents :: "env \<Rightarrow> (string \<times> string) list \<Rightarrow> string \<Rightarrow> content list" where
  "initial_contents env messages screenshotBase64 =
     (let resolution = getOriginalResolution env in
      map (\<lambda>(msg_role, msg_content).
             \<lparr>role = (if msg_role = ''user'' then ''user'' else ''model''),
              parts = Some [no_part\<lparr>part_text := Some msg_content\<rparr>]\<rparr>) messages
      @ [\<lparr>role = ''user'',
          parts = Some [no_part\<lparr>part_text := Some
                          (''Current screen (resolution: ''
                           @ number_toString env (fst resolution) @ ''x''
                           @ number_toString env (snd resolution) @ ''):'')\<rparr>,
                        image_part screenshotBase64]\<rparr>])"

definition try_block :: "env \<Rightarrow> (string \<times> string) list \<Rightarrow> unit io" where
  "try_block env messages =
     io_bind (screenshot env) (\<lambda>screenshotBase64.
     io_seq (\<lambda>s. (Inr (), s\<lparr>contents := initial_contents env messages screenshotBase64\<rparr>))
    (io_bind (agent_loop env 0) after_loop))"

definition stream :: "env \<Rightarrow> (string \<times> string) list \<Rightarrow> unit io" where
  "stream env messages = io_catch (try_block env messages) catch_block"

text \<open>A new streamer: nothing yielded, nothing done, \<open>currentUrl = "about:blank"\<close>.\<close>

definition new_run :: run_state where
  "new_run = \<lparr>events = [], effects = [], contents = [], currentUrl = Some ''about:blank''\<rparr>"

section \<open>Observations on a run\<close>

text \<open>The model calls among the effects, and the \<open>DONE\<close> and \<open>ERROR\<close> events.\<close>

definition is_model_call :: "effect \<Rightarrow> bool" where
  "is_model_call c = (case c of GenerateContent k \<Rightarrow> True | _ \<Rightarrow> False)"

definition model_calls :: "run_state \<Rightarrow> nat" where
  "model_calls s = length (filter is_model_call (effects s))"

definition is_final :: "SSEEvent \<Rightarrow> bool" where
  "is_final e = (case e of DONE c \<Rightarrow> True | ERROR c \<Rightarrow> True | _ \<Rightarrow> False)"

definition finals :: "run_state \<Rightarrow> SSEEvent list" where
  "finals s = filter is_final (events s)"

text \<open>
  The click \<open>executeAction\<close> makes at the denormalized coordinates of an action, and
  the scroll amount of a \<open>scroll_at\<close>, as the \<open>switch\<close> computes them.
\<close>

definition target_click :: "env \<Rightarrow> GeminiComputerAction \<Rightarrow> effect" where
  "target_click env action =
     LeftClick
       (map_option (\<lambda>x. denormalizeX x (fst (getOriginalResolution env))) (arg_x (args action)))
       (map_option (\<lambda>y. denormalizeY y (snd (getOriginalResolution env))) (arg_y (args action)))"

definition scroll_amount :: "GeminiComputerAction \<Rightarrow> int" where
  "scroll_amount action =
     Math_round (binary64 (binary64 ((case arg_magnitude (args action) of
                                        None \<Rightarrow> 800
                                      | Some m \<Rightarrow> if m = 0 then 800 else m) / 1000) * 500))"

text \<open>The \<open>setTimeout\<close> waits among the effects, in order.\<close>

definition is_timeout :: "effect \<Rightarrow> bool" where
  "is_timeout c = (case c of SetTimeout d \<Rightarrow> True | _ \<Rightarrow> False)"

definition timeouts :: "run_state \<Rightarrow> effect list" where
  "timeouts s = filter is_timeout (effects s)"

text \<open>
  A model turn that keeps the loop going: it has a first candidate with parts, at least
  one part is a function call, and no executed action makes \<open>getActionSettleDelay\<close>
  throw.
\<close>

definition settles :: "GeminiComputerAction \<Rightarrow> bool" where
  "settles a = (case getActionSettleDelay a of Inl e \<Rightarrow> False | Inr d \<Rightarrow> True)"

definition acting_parts :: "part list \<Rightarrow> bool" where
  "acting_parts ps =
     ((\<exists>p \<in> set ps. functionCall p \<noteq> None)
      \<and> (\<forall>p \<in> set ps. case valid_call p of None \<Rightarrow> True | Some a \<Rightarrow> settles a))"

definition acting_turn :: "response option \<Rightarrow> bool" where
  "acting_turn r =
     (case first_candidate r of
        None \<Rightarrow> False
      | Some c \<Rightarrow>
          (case content_parts c of None \<Rightarrow> False | Some (cont, ps) \<Rightarrow> acting_parts ps))"

text \<open>
  Two ways to speak about a step whatever the state it starts in: it leaves an
  observation of the state as it was; and, started when the effects so far have a
  property \<open>P\<close>, it returns a value of a given kind without throwing and \<open>P\<close> still
  holds of the effects.
\<close>

definition io_keeps :: "(run_state \<Rightarrow> 'o) \<Rightarrow> 'a io \<Rightarrow> bool" where
  "io_keeps obs m = (\<forall>s. obs (snd (m s)) = obs s)"

definition io_ok :: "(effect list \<Rightarrow> bool) \<Rightarrow> 'a io \<Rightarrow> ('a \<Rightarrow> bool) \<Rightarrow> bool" where
  "io_ok P m Q =
     (\<forall>s. P (effects s)
        \<longrightarrow> (case fst (m s) of Inl e \<Rightarrow> False | Inr v \<Rightarrow> Q v) \<and> P (effects (snd (m s))))"

text \<open>
  The property \<open>P\<close> of the effects so far is kept by every effect that is not a model
  call, and the desktop does not throw as long as it holds.
\<close>

definition stable :: "(effect list \<Rightarrow> bool) \<Rightarrow> bool" where
  "stable P = (\<forall>h c. P h \<longrightarrow> \<not> is_model_call c \<longrightarrow> P (h @ [c]))"

definition calm_on :: "(effect list \<Rightarrow> bool) \<Rightarrow> env \<Rightarrow> bool" where
  "calm_on P env = (\<forall>h c. P h \<longrightarrow> desktop_throws env h c = None)"

text \<open>
  The effects that are calls to the desktop, and how many of them the effects hold after
  the model call of iteration \<open>k\<close>.
\<close>

definition is_desktop :: "effect \<Rightarrow> bool" where
  "is_desktop c =
     (case c of
        LeftClick x y \<Rightarrow> True | MoveMouse x y \<Rightarrow> True | Press k \<Rightarrow> True | Write t \<Rightarrow> True
      | Scroll d n \<Rightarrow> True | Drag a b \<Rightarrow> True | _ \<Rightarrow> False)"

definition calls_since :: "nat \<Rightarrow> effect list \<Rightarrow> nat" where
  "calls_since k h = length (filter is_desktop (dropWhile (\<lambda>c. c \<noteq> GenerateContent k) h))"

text \<open>
  The number of calls to the desktop the \<open>switch\<close> of \<open>executeAction\<close> makes for an
  action when none of them throws, and their number for the valid calls of a model turn.
\<close>

definition desktop_calls :: "GeminiComputerAction \<Rightarrow> nat" where
  "desktop_calls a =
     (if name a = ''click_at'' \<or> name a = ''hover_at'' \<or> name a = ''key_combination''
         \<or> name a = ''drag_and_drop'' then 1
      else if name a = ''type_text_at'' then
        2 + (if arg_clear_before_typing (args a) \<noteq> Some False then 2 else 0)
          + (if arg_press_enter (args a) \<noteq> Some False then 1 else 0)
      else if name a = ''scroll_document'' then
        (if arg_direction (args a) = Some ''up'' \<or> arg_direction (args a) = Some ''down''
         then 1 else 0)
      else if name a = ''scroll_at'' then
        1 + (if arg_direction (args a) = Some ''up'' \<or> arg_direction (args a) = Some ''down''
             then 1 else 0)
      else 0)"

definition turn_calls :: "response option \<Rightarrow> nat" where
  "turn_calls r =
     (case first_candidate r of
        None \<Rightarrow> 0
      | Some c \<Rightarrow>
          (case content_parts c of
             None \<Rightarrow> 0
           | Some (cont, ps) \<Rightarrow> sum_list (map desktop_calls (List.map_filter valid_call ps))))"

section \<open>Concrete runs\<close>

text \<open>
  An environment in which nothing throws and nothing is cancelled, on a 1920x1080
  display, whose model answers with a turn that has no parts.
\<close>

definition quiet_env :: env where
  "quiet_env =
     \<lparr>desktop_throws = (\<lambda>h c. None),
      generateContent = (\<lambda>k cs. Inr (Some \<lparr>candidates = Some
         [\<lparr>content = Some \<lparr>role = ''model'', parts = Some []\<rparr>\<rparr>]\<rparr>)),
      takeScreenshot = (\<lambda>h. Inr ''png''),
      aborted = (\<lambda>k. False),
      getOriginalResolution = (1920, 1080),
      number_toString = (\<lambda>r. ''?'')\<rparr>"

text \<open>A click at the last normalized coordinate, on a display of 100x100 pixels.\<close>

definition small_env :: env where
  "small_env = quiet_env\<lparr>getOriginalResolution := (100, 100)\<rparr>"

definition click_999 :: GeminiComputerAction where
  "click_999 = \<lparr>name = ''click_at'', args = no_args\<lparr>arg_x := Some 999, arg_y := Some 999\<rparr>\<rparr>"

text \<open>A model that answers every call with one \<open>click_at\<close> at the centre.\<close>

definition call_part :: "string option \<Rightarrow> args option \<Rightarrow> part" where
  "call_part n a = no_part\<lparr>functionCall := Some (FunctionCall n a)\<rparr>"

definition model_turn :: "part list \<Rightarrow> response option" where
  "model_turn ps =
     Some \<lparr>candidates = Some [\<lparr>content = Some \<lparr>role = ''model'', parts = Some ps\<rparr>\<rparr>]\<rparr>"

definition click_part :: part where
  "click_part =
     call_part (Some ''click_at'') (Some (no_args\<lparr>arg_x := Some 500, arg_y := Some 500\<rparr>))"

definition click_env :: env where
  "click_env = quiet_env\<lparr>generateContent := (\<lambda>k cs. Inr (model_turn [click_part]))\<rparr>"

text \<open>The same model, with the cancellation signal set after 49 iterations.\<close>

definition late_cancel_env :: env where
  "late_cancel_env = click_env\<lparr>aborted := (\<lambda>k. 50 \<le> k)\<rparr>"

text \<open>
  The model of \<open>click_env\<close> with a call that throws in iteration \<open>k\<close>; and the same
  model with a given turn in iteration \<open>k\<close>, on a desktop that serves \<open>n\<close> calls in
  that turn and throws from the next one on. The turn \<open>late_enter\<close> is a \<open>click_at\<close>,
  a \<open>navigate\<close>, a call without a name and a \<open>type_text_at\<close>.
\<close>

definition failing_model_env :: "nat \<Rightarrow> thrown \<Rightarrow> env" where
  "failing_model_env k e =
     click_env\<lparr>generateContent :=
       (\<lambda>j cs. if j = k then Inl e else Inr (model_turn [click_part]))\<rparr>"

definition failing_desktop_env :: "nat \<Rightarrow> nat \<Rightarrow> thrown \<Rightarrow> part list \<Rightarrow> env" where
  "failing_desktop_env k n e turn =
     click_env\<lparr>desktop_throws :=
                 (\<lambda>h c. if GenerateContent k \<in> set h \<and> n \<le> calls_since k h then Some e
                         else None),
               generateContent :=
                 (\<lambda>j cs. if j = k then Inr (model_turn turn) else Inr (model_turn [click_part]))\<rparr>"

definition late_enter :: "part list" where
  "late_enter =
     [click_part,
      call_part (Some ''navigate'') (Some (no_args\<lparr>arg_url := Some ''https://example.com''\<rparr>)),
      call_part None (Some no_args),
      call_part (Some ''type_text_at'')
        (Some (no_args\<lparr>arg_x := Some 100, arg_y := Some 100, arg_text := Some ''ls''\<rparr>))]"

text \<open>
  A \<open>type_text_at\<close> without \<open>press_enter\<close>, a horizontal \<open>scroll_at\<close>, and a turn of
  three calls whose settle delays are 400, 3000 and 200.
\<close>

definition type_ls :: GeminiComputerAction where
  "type_ls =
     \<lparr>name = ''type_text_at'',
      args = no_args\<lparr>arg_x := Some 500, arg_y := Some 500, arg_text := Some ''ls''\<rparr>\<rparr>"

definition scroll_left :: GeminiComputerAction where
  "scroll_left =
     \<lparr>name = ''scroll_at'',
      args = no_args\<lparr>arg_x := Some 500, arg_y := Some 500, arg_direction := Some ''left''\<rparr>\<rparr>"

definition three_calls :: "part list" where
  "three_calls =
     [click_part,
      call_part (Some ''type_text_at'')
        (Some (no_args\<lparr>arg_x := Some 100, arg_y := Some 100, arg_text := Some ''ls'',
                 arg_press_enter := Some True\<rparr>)),
      call_part (Some ''scroll_document'') (Some (no_args\<lparr>arg_direction := Some ''down''\<rparr>))]"

text \<open>A turn of two \<open>click_at\<close> calls, whose settle delays are both 400.\<close>

definition two_clicks :: "part list" where
  "two_clicks =
     [click_part,
      call_part (Some ''click_at'') (Some (no_args\<lparr>arg_x := Some 100, arg_y := Some 200\<rparr>))]"

text \<open>A turn whose first call has no name and whose second has no args.\<close>

definition broken_calls :: "part list" where
  "broken_calls =
     [call_part None (Some no_args), call_part (Some ''click_at'') None, click_part]"

section \<open>Rounding to a double\<close>

lemma ilog2_bounds:
  assumes "0 < q"
  shows "2 powi (ilog2 q) \<le> q" and "q < 2 powi (ilog2 q + 1)"
proof -
  obtain a b where ab: "quotient_of q = (a, b)" by (cases "quotient_of q")
  have b: "0 < b" using ab by (rule quotient_of_denom_pos)
  have q: "q = of_int a / of_int b" using ab by (rule quotient_of_div)
  have a: "0 < a" using assms b q by (simp add: zero_less_divide_iff)
  define la lb where "la = bitlen a" and "lb = bitlen b"
  have la: "1 \<le> la" and lb: "1 \<le> lb"
    using a b by (simp_all add: la_def lb_def bitlen_alt_def)
  have A: "(2::int) ^ nat (la - 1) \<le> a" "a < 2 ^ nat la"
    using bitlen_bounds [OF a] by (simp_all add: la_def)
  have B: "(2::int) ^ nat (lb - 1) \<le> b" "b < 2 ^ nat lb"
    using bitlen_bounds [OF b] by (simp_all add: lb_def)
  have pw: "(2::rat) powi n = of_int (2 ^ nat n)" if "0 \<le> n" for n
    using that by (simp add: power_int_def)
  have A': "2 powi (la - 1) \<le> rat_of_int a" "rat_of_int a < 2 powi la"
    using A la by (simp_all only: pw of_int_le_iff of_int_less_iff)
  have B': "2 powi (lb - 1) \<le> rat_of_int b" "rat_of_int b < 2 powi lb"
    using B lb by (simp_all only: pw of_int_le_iff of_int_less_iff)
  have bpos: "(0::rat) < of_int b" using b by simp
  have lower: "2 powi (la - lb - 1) \<le> q"
  proof -
    have "2 powi (la - lb - 1) * rat_of_int b \<le> 2 powi (la - lb - 1) * 2 powi lb"
      using B'(2) by (intro mult_left_mono) simp_all
    also have "\<dots> = 2 powi (la - 1)"
      by (simp add: power_int_add [symmetric])
    also have "\<dots> \<le> of_int a" by (rule A'(1))
    finally show ?thesis using bpos by (simp add: q pos_le_divide_eq)
  qed
  have upper: "q < 2 powi (la - lb + 1)"
  proof -
    have "of_int a < (2::rat) powi la" by (rule A'(2))
    also have "\<dots> = 2 powi (la - lb + 1) * 2 powi (lb - 1)"
      by (simp add: power_int_add [symmetric])
    also have "\<dots> \<le> 2 powi (la - lb + 1) * rat_of_int b"
      using B'(1) by (intro mult_left_mono) simp_all
    finally show ?thesis using bpos by (simp add: q pos_divide_less_eq)
  qed
  have il: "ilog2 q = (if 2 powi (la - lb) \<le> q then la - lb else la - lb - 1)"
    by (simp add: ilog2_def ab la_def lb_def)
  show "2 powi (ilog2 q) \<le> q" using lower by (simp add: il)
  show "q < 2 powi (ilog2 q + 1)" using upper by (auto simp: il not_le)
qed

lemma ilog2_less:
  assumes "0 < q" and "q < 2 powi n"
  shows "ilog2 q < n"
proof (rule ccontr)
  assume "\<not> ilog2 q < n"
  then have "(2::rat) powi n \<le> 2 powi (ilog2 q)" by (intro power_int_increasing) simp_all
  then show False using ilog2_bounds(1) [OF assms(1)] assms(2) by simp
qed

lemma ilog2_ge:
  assumes "0 < q" and "2 powi n \<le> q"
  shows "n \<le> ilog2 q"
proof (rule ccontr)
  assume "\<not> n \<le> ilog2 q"
  then have "(2::rat) powi (ilog2 q + 1) \<le> 2 powi n" by (intro power_int_increasing) simp_all
  then show False using ilog2_bounds(2) [OF assms(1)] assms(2) by simp
qed

lemma round_half_even_of_int [simp]: "round_half_even (of_int n) = n"
  by (simp add: round_half_even_def)

lemma round_half_even_mono:
  assumes "v \<le> w"
  shows "round_half_even v \<le> round_half_even w"
proof (cases "\<lfloor>v\<rfloor> = \<lfloor>w\<rfloor>")
  case True
  then show ?thesis using assms by (auto simp: round_half_even_def Let_def)
next
  case False
  then have "\<lfloor>v\<rfloor> < \<lfloor>w\<rfloor>" using assms floor_mono [of v w] by simp
  moreover have "round_half_even v \<le> \<lfloor>v\<rfloor> + 1" by (simp add: round_half_even_def Let_def)
  moreover have "\<lfloor>w\<rfloor> \<le> round_half_even w" by (simp add: round_half_even_def Let_def)
  ultimately show ?thesis by linarith
qed

lemma binary64_pos:
  assumes "0 < q"
  shows "binary64 q = of_int (round_half_even (q / 2 powi (expo q - 52))) * 2 powi (expo q - 52)"
  using assms by (simp add: binary64_def Let_def)

lemma scaled_power:
  "(2::rat) powi a / 2 powi b = of_int (2 ^ nat (a - b))" if "b \<le> a"
proof -
  have "(2::rat) powi a / 2 powi b = 2 powi (a - b)" by (simp add: power_int_diff)
  also have "\<dots> = of_int (2 ^ nat (a - b))" using that by (simp add: power_int_def)
  finally show ?thesis .
qed

lemma scaled_power_mult:
  "of_int (2 ^ nat (a - b)) * (2::rat) powi b = 2 powi a" if "b \<le> a"
proof -
  have "(2::rat) powi a = 2 powi (a - b) * 2 powi b" by (simp add: power_int_add [symmetric])
  also have "(2::rat) powi (a - b) = of_int (2 ^ nat (a - b))"
    using that by (simp add: power_int_def)
  finally show ?thesis by simp
qed

lemma expo_mono:
  assumes "0 < q" and "q \<le> r"
  shows "expo q \<le> expo r"
proof -
  have "2 powi (ilog2 q) \<le> r" using ilog2_bounds(1) [OF assms(1)] assms(2) by simp
  then have "ilog2 q \<le> ilog2 r" using assms by (intro ilog2_ge) simp_all
  then show ?thesis using assms by (simp add: expo_def)
qed

lemma below_next_power:
  assumes "0 < q"
  shows "q < 2 powi (expo q + 1)"
proof -
  have "q < 2 powi (ilog2 q + 1)" using assms by (rule ilog2_bounds(2))
  also have "\<dots> \<le> 2 powi (expo q + 1)"
    using assms by (intro power_int_increasing) (simp_all add: expo_def)
  finally show ?thesis .
qed

lemma binary64_nonneg:
  assumes "0 \<le> q"
  shows "0 \<le> binary64 q"
proof (cases "q = 0")
  case True
  then show ?thesis by (simp add: binary64_def)
next
  case False
  then have q: "0 < q" using assms by simp
  have "0 \<le> q / 2 powi (expo q - 52)" using assms by simp
  then have "round_half_even 0 \<le> round_half_even (q / 2 powi (expo q - 52))"
    by (rule round_half_even_mono)
  then have "0 \<le> round_half_even (q / 2 powi (expo q - 52))"
    by (simp add: round_half_even_def)
  then show ?thesis using binary64_pos [OF q] by simp
qed

lemma binary64_mono:
  assumes "0 \<le> q" and "q \<le> r"
  shows "binary64 q \<le> binary64 r"
proof (cases "q = 0")
  case True
  then show ?thesis using binary64_nonneg [of r] assms by (simp add: binary64_def)
next
  case False
  then have q: "0 < q" and r: "0 < r" using assms by simp_all
  let ?u = "\<lambda>x. (2::rat) powi (expo x - 52)"
  have le: "expo q \<le> expo r" using q assms(2) by (rule expo_mono)
  show ?thesis
  proof (cases "expo q = expo r")
    case True
    have "q / ?u q \<le> r / ?u q" using assms(2) by (simp add: divide_right_mono)
    then have "round_half_even (q / ?u q) \<le> round_half_even (r / ?u q)"
      by (rule round_half_even_mono)
    then have "of_int (round_half_even (q / ?u q)) * ?u q
                 \<le> of_int (round_half_even (r / ?u q)) * ?u q"
      by (intro mult_right_mono) simp_all
    then show ?thesis using binary64_pos [OF q] binary64_pos [OF r] True by simp
  next
    case False
    then have lt: "expo q + 1 \<le> expo r" using le by simp
    have "- 1022 \<le> expo q" by (simp add: expo_def)
    then have "- 1022 < expo r" using lt by linarith
    then have er: "expo r = ilog2 r" using r by (simp add: expo_def max_def split: if_splits)
    have "q / ?u q \<le> 2 powi (expo q + 1) / ?u q"
      using below_next_power [OF q] by (simp add: divide_right_mono)
    also have "\<dots> = of_int (2 ^ nat 53)"
      using scaled_power [of "expo q - 52" "expo q + 1"] by simp
    finally have "round_half_even (q / ?u q) \<le> round_half_even (of_int (2 ^ nat 53))"
      by (rule round_half_even_mono)
    then have "of_int (round_half_even (q / ?u q)) * ?u q \<le> of_int (2 ^ nat 53) * ?u q"
      by (simp only: round_half_even_of_int mult_le_cancel_right_pos zero_less_power_int
          zero_less_numeral of_int_le_iff)
    also have "\<dots> = 2 powi (expo q + 1)"
      using scaled_power_mult [of "expo q - 52" "expo q + 1"] by simp
    also have "\<dots> \<le> 2 powi (expo r)" using lt by (intro power_int_increasing) simp_all
    also have "\<dots> = of_int (2 ^ nat 52) * ?u r"
      using scaled_power_mult [of "expo r - 52" "expo r"] by simp
    also have "\<dots> \<le> of_int (round_half_even (r / ?u r)) * ?u r"
    proof -
      have "2 powi (expo r) \<le> r" unfolding er using r by (rule ilog2_bounds(1))
      then have "2 powi (expo r) / ?u r \<le> r / ?u r" by (simp add: divide_right_mono)
      then have "of_int (2 ^ nat 52) \<le> r / ?u r"
        using scaled_power [of "expo r - 52" "expo r"] by simp
      then have "round_half_even (of_int (2 ^ nat 52)) \<le> round_half_even (r / ?u r)"
        by (rule round_half_even_mono)
      then show ?thesis
        by (simp only: round_half_even_of_int mult_le_cancel_right_pos zero_less_power_int
            zero_less_numeral of_int_le_iff)
    qed
    finally show ?thesis using binary64_pos [OF q] binary64_pos [OF r] by simp
  qed
qed

text \<open>A positive multiple of a power of two with at most 53 significant bits is a double.\<close>

lemma binary64_exact:
  assumes "0 < r" and "r = of_int m * 2 powi j" and "- 1074 \<le> j" and "r < 2 powi (j + 53)"
  shows "binary64 r = r"
proof -
  have "ilog2 r < j + 53" using assms(1) assms(4) by (rule ilog2_less)
  then have le: "expo r - 52 \<le> j" using assms(1) assms(3) by (simp add: expo_def)
  have "r / 2 powi (expo r - 52) = of_int m * (2 powi j / 2 powi (expo r - 52))"
    by (simp add: assms(2))
  also have "\<dots> = of_int (m * 2 ^ nat (j - (expo r - 52)))"
    using scaled_power [OF le] by simp
  finally have "round_half_even (r / 2 powi (expo r - 52)) = m * 2 ^ nat (j - (expo r - 52))"
    by (simp only: round_half_even_of_int)
  then have "binary64 r = of_int (m * 2 ^ nat (j - (expo r - 52))) * 2 powi (expo r - 52)"
    using binary64_pos [OF assms(1)] by simp
  also have "\<dots> = of_int m * (of_int (2 ^ nat (j - (expo r - 52))) * 2 powi (expo r - 52))"
    by simp
  also have "\<dots> = of_int m * 2 powi j"
    by (simp only: scaled_power_mult [OF le])
  finally show ?thesis by (simp add: assms(2))
qed

lemma binary64_of_int:
  assumes "0 < n" and "n < 2 ^ 53"
  shows "binary64 (of_int n) = of_int n"
proof -
  have "rat_of_int n < of_int (2 ^ 53)" using assms(2) by (simp only: of_int_less_iff)
  then have "rat_of_int n < 2 powi (0 + 53)" by simp
  then show ?thesis using assms(1) by (intro binary64_exact [where m = n and j = 0]) simp_all
qed

section \<open>Coordinate conversion\<close>

lemma binary64_999: "binary64 (999 / 1000) = 8998192055486251 / 9007199254740992"
  by code_simp

lemma scaled_product:
  fixes p :: rat and D :: int
  assumes "0 \<le> p" "p \<le> 999" "0 < D"
  shows "0 \<le> binary64 (p / 1000) * of_int D"
    and "binary64 (p / 1000) * of_int D
           \<le> (8998192055486251 / 9007199254740992) * of_int D"
proof -
  have d: "(0::rat) \<le> of_int D" using assms(3) by simp
  have "0 \<le> p / 1000" using assms(1) by simp
  then have t0: "0 \<le> binary64 (p / 1000)" by (rule binary64_nonneg)
  then show "0 \<le> binary64 (p / 1000) * of_int D" using d by simp
  have "p / 1000 \<le> 999 / 1000" using assms(2) by simp
  with \<open>0 \<le> p / 1000\<close> have "binary64 (p / 1000) \<le> binary64 (999 / 1000)"
    by (rule binary64_mono)
  then have "binary64 (p / 1000) \<le> 8998192055486251 / 9007199254740992"
    by (simp only: binary64_999)
  then show "binary64 (p / 1000) * of_int D
           \<le> (8998192055486251 / 9007199254740992) * of_int D"
    using d by (rule mult_right_mono)
qed

text \<open>Below a double of at least \<open>2^53\<close> there is a double at least 2 smaller.\<close>

lemma double_below:
  fixes W :: rat
  assumes "2 ^ 53 \<le> W" and "binary64 W = W"
  obtains r where "binary64 r = r" and "r \<le> W - 2"
    and "(8998192055486251 / 9007199254740992) * W \<le> r"
proof -
  have W: "0 < W" using assms(1) by (rule less_le_trans [rotated]) simp
  define u where "u = (2::rat) powi (expo W - 52)"
  define m where "m = round_half_even (W / u)"
  have Wm: "W = of_int m * u"
    using binary64_pos [OF W] assms(2) by (simp add: m_def u_def)
  have "(2::rat) powi 53 \<le> W" using assms(1) by simp
  then have "53 \<le> ilog2 W" using W by (intro ilog2_ge)
  then have e: "expo W = ilog2 W" "53 \<le> expo W" using W by (simp_all add: expo_def)
  have "(2::rat) powi 1 \<le> 2 powi (expo W - 52)"
    using e(2) by (intro power_int_increasing) simp_all
  then have u2: "2 \<le> u" by (simp add: u_def)
  have "2 powi (expo W) \<le> W" unfolding e(1) using W by (rule ilog2_bounds(1))
  then have big: "of_int (2 ^ nat 52) * u \<le> W"
    using scaled_power_mult [of "expo W - 52" "expo W"] by (simp add: u_def)
  have "expo W - 52 + 53 = expo W + 1" by simp
  then have up: "W < 2 powi (expo W - 52 + 53)" using below_next_power [OF W] by (simp only:)
  define r where "r = of_int (m - 1) * u"
  have r: "r = W - u" by (simp add: r_def Wm algebra_simps)
  have "0 < r" using big u2 unfolding r by simp
  moreover have "r < 2 powi (expo W - 52 + 53)" using up u2 unfolding r by linarith
  ultimately have "binary64 r = r"
    using e(2) by (intro binary64_exact [where m = "m - 1" and j = "expo W - 52"])
      (simp_all add: r_def u_def)
  moreover have "r \<le> W - 2" using u2 unfolding r by simp
  moreover have "(8998192055486251 / 9007199254740992) * W \<le> r"
    using big u2 unfolding r by simp
  ultimately show ?thesis by (rule that)
qed

lemma round_scaled_range:
  fixes p :: rat and D :: int
  assumes "0 \<le> p" "p \<le> 999" "0 < D" "binary64 (of_int D) = of_int D"
  shows "0 \<le> Math_round (binary64 (binary64 (p / 1000) * of_int D))"
    and "Math_round (binary64 (binary64 (p / 1000) * of_int D)) \<le> D"
    and "500 < D \<Longrightarrow> Math_round (binary64 (binary64 (p / 1000) * of_int D)) \<le> D - 1"
proof -
  define w where "w = binary64 (p / 1000) * rat_of_int D"
  define v where "v = binary64 w"
  have lo: "0 \<le> w" and hi: "w \<le> (8998192055486251 / 9007199254740992) * rat_of_int D"
    using scaled_product [OF assms(1-3)] by (simp_all add: w_def)
  have d: "(0::rat) < of_int D" using assms(3) by simp
  have v0: "0 \<le> v" unfolding v_def using lo by (rule binary64_nonneg)
  have "w \<le> rat_of_int D" using hi d by linarith
  with lo have "v \<le> binary64 (rat_of_int D)" unfolding v_def by (rule binary64_mono)
  then have vD: "v \<le> rat_of_int D" using assms(4) by simp
  show "0 \<le> Math_round (binary64 (binary64 (p / 1000) * of_int D))"
    unfolding Math_round_def w_def [symmetric] v_def [symmetric] zero_le_floor
    using v0 by linarith
  show "Math_round (binary64 (binary64 (p / 1000) * of_int D)) \<le> D"
    unfolding Math_round_def w_def [symmetric] v_def [symmetric] floor_le_iff
    using vD by linarith
  show "Math_round (binary64 (binary64 (p / 1000) * of_int D)) \<le> D - 1" if big: "500 < D"
  proof -
    consider "D \<le> 1000" | "1001 \<le> D" "D < 2 ^ 53" | "2 ^ 53 \<le> D" by linarith
    then have "v < rat_of_int D - 1 / 2"
    proof cases
      case 1
      define r where "r = rat_of_int (2048 * D - 1025) * 2 powi (- 11)"
      have r: "r = rat_of_int D - 1025 / 2048" by (simp add: r_def power_int_def field_simps)
      have "501 \<le> D" using big by simp
      then have "rat_of_int 501 \<le> of_int D" by (simp only: of_int_le_iff)
      then have D1: "(501::rat) \<le> of_int D" by simp
      have "rat_of_int D \<le> of_int 1000" using 1 by (simp only: of_int_le_iff)
      then have D2: "rat_of_int D \<le> 1000" by simp
      have "0 < r" using D1 unfolding r by linarith
      moreover have "r < 2 powi (- 11 + 53)" using D2 unfolding r by (simp add: power_int_def)
      ultimately have ex: "binary64 r = r"
        by (intro binary64_exact [where m = "2048 * D - 1025" and j = "- 11"])
           (simp_all add: r_def)
      have "w \<le> r" using hi D1 unfolding r by linarith
      with lo have "v \<le> binary64 r" unfolding v_def by (rule binary64_mono)
      then show ?thesis using ex unfolding r by linarith
    next
      case 2
      have "rat_of_int 1001 \<le> of_int D" using 2(1) by (simp only: of_int_le_iff)
      then have D1: "(1001::rat) \<le> of_int D" by simp
      have ex: "binary64 (rat_of_int (D - 1)) = rat_of_int (D - 1)"
        using 2 by (intro binary64_of_int) simp_all
      have "w \<le> rat_of_int (D - 1)" using hi D1 by simp
      with lo have "v \<le> binary64 (rat_of_int (D - 1))" unfolding v_def by (rule binary64_mono)
      then show ?thesis using ex by simp
    next
      case 3
      have "rat_of_int (2 ^ 53) \<le> of_int D" using 3 by (simp only: of_int_le_iff)
      then have "(2::rat) ^ 53 \<le> of_int D" by simp
      then obtain r where r: "binary64 r = r" "r \<le> rat_of_int D - 2"
        "(8998192055486251 / 9007199254740992) * rat_of_int D \<le> r"
        using assms(4) by (rule double_below)
      have "w \<le> r" using hi r(3) by linarith
      with lo have "v \<le> binary64 r" unfolding v_def by (rule binary64_mono)
      then show ?thesis using r(1) r(2) by linarith
    qed
    then show ?thesis
      unfolding Math_round_def w_def [symmetric] v_def [symmetric] floor_le_iff
      by simp
  qed
qed

text \<open>
  C1, as the code has it. \<open>denormalizeX\<close> and \<open>denormalizeY\<close> compute
  \<open>round(p/1000 * dimension)\<close> in double arithmetic and nothing clamps the result
  afterwards. For a native resolution \<open>(W, H)\<close> with \<open>W, H > 0\<close> and normalized
  \<open>0 \<le> x, y \<le> 999\<close> the pixel coordinates satisfy \<open>0 \<le> px \<le> W\<close> and
  \<open>0 \<le> py \<le> H\<close>; the bounds \<open>px \<le> W - 1\<close> and \<open>py \<le> H - 1\<close> hold when the
  dimension is larger than 500. Native \<open>(1920, 1080)\<close> with normalized \<open>(500, 500)\<close>
  maps to \<open>(960, 540)\<close>.
\<close>

theorem denormalize_within_display:
  fixes x y :: rat and W H :: int
  assumes "0 \<le> x" "x \<le> 999" "0 \<le> y" "y \<le> 999"
    and "0 < W" "is_double (of_int W)" "0 < H" "is_double (of_int H)"
  shows "0 \<le> denormalizeX x (of_int W) \<and> denormalizeX x (of_int W) \<le> W
       \<and> 0 \<le> denormalizeY y (of_int H) \<and> denormalizeY y (of_int H) \<le> H
       \<and> (500 < W \<longrightarrow> denormalizeX x (of_int W) \<le> W - 1)
       \<and> (500 < H \<longrightarrow> denormalizeY y (of_int H) \<le> H - 1)
       \<and> denormalizeX 500 1920 = 960 \<and> denormalizeY 500 1080 = 540"
proof -
  have W: "binary64 (of_int W) = of_int W" using assms(6) by (simp add: is_double_def)
  have H: "binary64 (of_int H) = of_int H" using assms(8) by (simp add: is_double_def)
  note X = round_scaled_range [OF assms(1) assms(2) assms(5) W]
  note Y = round_scaled_range [OF assms(3) assms(4) assms(7) H]
  have ex: "denormalizeX 500 1920 = 960" "denormalizeY 500 1080 = 540"
    by code_simp+
  show ?thesis
    using X Y ex by (simp add: denormalizeX_def denormalizeY_def)
qed

lemma display_dimensions: "is_double 1920" "is_double 1080" "is_double 501"
  by code_simp+

theorem denormalize_within_display_witness:
  "0 \<le> denormalizeX 999 1920 \<and> denormalizeX 999 1920 \<le> 1920 - 1
   \<and> 0 \<le> denormalizeY 145 501 \<and> denormalizeY 145 501 \<le> 501 - 1"
  using denormalize_within_display [of 999 145 1920 501] display_dimensions by simp

text \<open>
  The rounding of the code is the rounding of doubles: \<open>(145 / 1000) * 100\<close> is a
  double just below 14.5, and \<open>(565 / 1000) * 900\<close> one just below 508.5.
\<close>

lemma denormalize_in_doubles: "denormalizeX 145 100 = 14" "denormalizeY 565 900 = 508"
  by code_simp+

text \<open>
  The claim as written fails on a display of 100x100 pixels: normalized 999 becomes
  pixel 100, outside \<open>[0, 99]\<close>, and \<open>click_at\<close> clicks there.
\<close>

theorem denormalize_not_clamped:
  "\<not> (denormalizeX 999 100 \<le> 100 - 1)
   \<and> effects (snd (executeAction small_env click_999 new_run))
       = [LeftClick (Some 100) (Some 100), LogDebug]"
  by code_simp

section \<open>Steps that keep an observation\<close>

lemma keeps_return: "io_keeps obs (io_return v)"
  by (simp add: io_keeps_def io_return_def)

lemma keeps_throw: "io_keeps obs (io_throw e)"
  by (simp add: io_keeps_def io_throw_def)

lemma keeps_bind:
  assumes "io_keeps obs m" and "\<And>v. io_keeps obs (f v)"
  shows "io_keeps obs (io_bind m f)"
proof -
  have "obs (snd (io_bind m f s)) = obs s" for s
  proof (cases "m s")
    case (Pair r s')
    have s': "obs s' = obs s" using assms(1) Pair by (metis io_keeps_def snd_conv)
    show ?thesis
    proof (cases r)
      case (Inl e)
      then show ?thesis using Pair s' by (simp add: io_bind_def)
    next
      case (Inr v)
      have "obs (snd (f v s')) = obs s'" using assms(2) by (simp add: io_keeps_def)
      then show ?thesis using Pair Inr s' by (simp add: io_bind_def)
    qed
  qed
  then show ?thesis by (simp add: io_keeps_def)
qed

lemma keeps_seq:
  assumes "io_keeps obs m" and "io_keeps obs n"
  shows "io_keeps obs (io_seq m n)"
  unfolding io_seq_def using assms by (intro keeps_bind)

lemma keeps_catch:
  assumes "io_keeps obs m" and "\<And>e. io_keeps obs (h e)"
  shows "io_keeps obs (io_catch m h)"
proof -
  have "obs (snd (io_catch m h s)) = obs s" for s
  proof (cases "m s")
    case (Pair r s')
    have s': "obs s' = obs s" using assms(1) Pair by (metis io_keeps_def snd_conv)
    show ?thesis
    proof (cases r)
      case (Inl e)
      have "obs (snd (h e s')) = obs s'" using assms(2) by (simp add: io_keeps_def)
      then show ?thesis using Pair Inl s' by (simp add: io_catch_def)
    next
      case (Inr v)
      then show ?thesis using Pair s' by (simp add: io_catch_def)
    qed
  qed
  then show ?thesis by (simp add: io_keeps_def)
qed

lemma keeps_if:
  assumes "c \<Longrightarrow> io_keeps obs m" and "\<not> c \<Longrightarrow> io_keeps obs n"
  shows "io_keeps obs (if c then m else n)"
  using assms by simp

lemma keeps_case_option:
  assumes "v = None \<Longrightarrow> io_keeps obs m" and "\<And>x. v = Some x \<Longrightarrow> io_keeps obs (f x)"
  shows "io_keeps obs (case v of None \<Rightarrow> m | Some x \<Rightarrow> f x)"
  using assms by (cases v) simp_all

lemmas keeps_rules = keeps_return keeps_throw keeps_bind keeps_seq keeps_catch keeps_if
  keeps_case_option

text \<open>Observations of the events, and of the effects of one kind.\<close>

lemma keeps_events_perform: "io_keeps (\<lambda>s. f (events s)) (perform c)"
  by (simp add: io_keeps_def perform_def)

lemma keeps_events_desktop_call: "io_keeps (\<lambda>s. f (events s)) (desktop_call env c)"
  by (simp add: io_keeps_def desktop_call_def split: option.splits)

lemma keeps_events_set_currentUrl: "io_keeps (\<lambda>s. f (events s)) (set_currentUrl u)"
  by (simp add: io_keeps_def set_currentUrl_def)

lemma keeps_events_screenshot: "io_keeps (\<lambda>s. f (events s)) (screenshot env)"
  by (simp add: io_keeps_def screenshot_def split: sum.splits)

lemma keeps_events_push_content: "io_keeps (\<lambda>s. f (events s)) (push_content c)"
  by (simp add: io_keeps_def push_content_def)

lemma keeps_events_push_responses: "io_keeps (\<lambda>s. f (events s)) (push_responses fcs d)"
  by (simp add: io_keeps_def push_responses_def push_content_def)

lemma keeps_events_yield:
  "\<not> P e \<Longrightarrow> io_keeps (\<lambda>s. filter P (events s)) (yield e)"
  by (simp add: io_keeps_def yield_def)

lemma keeps_effects_perform:
  "\<not> P c \<Longrightarrow> io_keeps (\<lambda>s. filter P (effects s)) (perform c)"
  by (simp add: io_keeps_def perform_def)

lemma keeps_effects_desktop_call:
  "\<not> P c \<Longrightarrow> io_keeps (\<lambda>s. filter P (effects s)) (desktop_call env c)"
  by (simp add: io_keeps_def desktop_call_def split: option.splits)

lemma keeps_effects_screenshot:
  "\<not> P TakeScreenshot \<Longrightarrow> io_keeps (\<lambda>s. filter P (effects s)) (screenshot env)"
  by (simp add: io_keeps_def screenshot_def split: sum.splits)

lemma keeps_effects_set_currentUrl: "io_keeps (\<lambda>s. f (effects s)) (set_currentUrl u)"
  by (simp add: io_keeps_def set_currentUrl_def)

lemma keeps_effects_yield: "io_keeps (\<lambda>s. f (effects s)) (yield e)"
  by (simp add: io_keeps_def yield_def)

lemma keeps_effects_push_content: "io_keeps (\<lambda>s. f (effects s)) (push_content c)"
  by (simp add: io_keeps_def push_content_def)

lemma keeps_effects_push_responses: "io_keeps (\<lambda>s. f (effects s)) (push_responses fcs d)"
  by (simp add: io_keeps_def push_responses_def push_content_def)

lemma executeAction_keeps_events: "io_keeps (\<lambda>s. f (events s)) (executeAction env a)"
  unfolding executeAction_def execute_switch_def Let_def
  by (intro keeps_rules keeps_events_perform keeps_events_desktop_call
        keeps_events_set_currentUrl)

lemma executeAction_keeps_model_calls:
  "io_keeps (\<lambda>s. filter is_model_call (effects s)) (executeAction env a)"
  unfolding executeAction_def execute_switch_def Let_def
  by (intro keeps_rules keeps_effects_perform keeps_effects_desktop_call
        keeps_effects_set_currentUrl) (simp_all add: is_model_call_def)

lemma executeAction_keeps_timeouts:
  assumes "name a \<noteq> ''wait_5_seconds''"
  shows "io_keeps (\<lambda>s. filter is_timeout (effects s)) (executeAction env a)"
  unfolding executeAction_def execute_switch_def Let_def
  by (intro keeps_rules keeps_effects_perform keeps_effects_desktop_call
        keeps_effects_set_currentUrl) (simp_all add: is_timeout_def assms)

lemma for_calls_keeps_finals:
  "io_keeps (\<lambda>s. filter is_final (events s)) (for_calls env ps acc)"
proof (induction ps arbitrary: acc)
  case Nil
  show ?case by (simp add: keeps_return)
next
  case (Cons p ps)
  show ?case
    unfolding for_calls.simps
    by (intro keeps_rules keeps_events_perform keeps_events_yield Cons.IH
          executeAction_keeps_events [where f = "filter is_final"])
       (simp_all add: is_final_def)
qed

lemma for_calls_keeps_model_calls:
  "io_keeps (\<lambda>s. filter is_model_call (effects s)) (for_calls env ps acc)"
proof (induction ps arbitrary: acc)
  case Nil
  show ?case by (simp add: keeps_return)
next
  case (Cons p ps)
  show ?case
    unfolding for_calls.simps
    by (intro keeps_rules keeps_effects_perform keeps_effects_yield [where f = "filter is_model_call"] Cons.IH
          executeAction_keeps_model_calls)
       (simp_all add: is_model_call_def)
qed

section \<open>Steps that do not throw\<close>

lemma okI:
  assumes "\<And>s :: run_state. P (effects s)
             \<Longrightarrow> \<exists>v. fst (m s) = Inr v \<and> Q v \<and> P (effects (snd (m s)))"
  shows "io_ok P m Q"
  unfolding io_ok_def
proof (intro allI impI)
  fix s :: run_state
  assume "P (effects s)"
  then obtain v where "fst (m s) = Inr v" "Q v" "P (effects (snd (m s)))"
    using assms by blast
  then show "(case fst (m s) of Inl e \<Rightarrow> False | Inr v \<Rightarrow> Q v) \<and> P (effects (snd (m s)))"
    by simp
qed

lemma okD:
  fixes s :: run_state
  assumes "io_ok P m Q" and "P (effects s)"
  obtains v s' where "m s = (Inr v, s')" and "Q v" and "P (effects s')"
proof -
  have *: "(case fst (m s) of Inl e \<Rightarrow> False | Inr v \<Rightarrow> Q v) \<and> P (effects (snd (m s)))"
    using assms by (simp add: io_ok_def)
  then obtain v where "fst (m s) = Inr v" "Q v"
    by (cases "fst (m s)") simp_all
  then show ?thesis using that [of v "snd (m s)"] * by (metis prod.collapse)
qed

lemma ok_return: "Q v \<Longrightarrow> io_ok P (io_return v) Q"
  by (simp add: io_ok_def io_return_def)

lemma ok_bind:
  assumes "io_ok P m R" and "\<And>v. R v \<Longrightarrow> io_ok P (f v) Q"
  shows "io_ok P (io_bind m f) Q"
proof (rule okI)
  fix s :: run_state
  assume "P (effects s)"
  with assms(1) obtain v s' where m: "m s = (Inr v, s')" and v: "R v" and s': "P (effects s')"
    by (rule okD)
  obtain w s'' where f: "f v s' = (Inr w, s'')" and w: "Q w" and s'': "P (effects s'')"
    using assms(2) [OF v] s' by (rule okD)
  have "io_bind m f s = (Inr w, s'')" using m f by (simp add: io_bind_def)
  then show "\<exists>v. fst (io_bind m f s) = Inr v \<and> Q v \<and> P (effects (snd (io_bind m f s)))"
    using w s'' by simp
qed

lemma ok_seq:
  assumes "io_ok P m (\<lambda>_. True)" and "io_ok P n Q"
  shows "io_ok P (io_seq m n) Q"
  unfolding io_seq_def using assms by (intro ok_bind [where R = "\<lambda>_. True"])

lemma ok_catch:
  assumes "io_ok P m Q"
  shows "io_ok P (io_catch m h) Q"
proof (rule okI)
  fix s :: run_state
  assume "P (effects s)"
  with assms obtain v s' where m: "m s = (Inr v, s')" and v: "Q v" and s': "P (effects s')"
    by (rule okD)
  have "io_catch m h s = (Inr v, s')" using m by (simp add: io_catch_def)
  then show "\<exists>v. fst (io_catch m h s) = Inr v \<and> Q v \<and> P (effects (snd (io_catch m h s)))"
    using v s' by simp
qed

lemma ok_if:
  assumes "c \<Longrightarrow> io_ok P m Q" and "\<not> c \<Longrightarrow> io_ok P n Q"
  shows "io_ok P (if c then m else n) Q"
  using assms by simp

lemma ok_case_option:
  assumes "v = None \<Longrightarrow> io_ok P m Q" and "\<And>x. v = Some x \<Longrightarrow> io_ok P (f x) Q"
  shows "io_ok P (case v of None \<Rightarrow> m | Some x \<Rightarrow> f x) Q"
  using assms by (cases v) simp_all

lemma ok_perform:
  assumes "stable P" and "\<not> is_model_call c"
  shows "io_ok P (perform c) (\<lambda>_. True)"
  using assms by (simp add: io_ok_def perform_def stable_def)

lemma ok_yield: "io_ok P (yield e) (\<lambda>_. True)"
  by (simp add: io_ok_def yield_def)

lemma ok_set_currentUrl: "io_ok P (set_currentUrl u) (\<lambda>_. True)"
  by (simp add: io_ok_def set_currentUrl_def)

lemma ok_push_content: "io_ok P (push_content c) (\<lambda>_. True)"
  by (simp add: io_ok_def push_content_def)

lemma ok_push_responses: "io_ok P (push_responses fcs d) (\<lambda>_. True)"
  by (simp add: io_ok_def push_responses_def push_content_def)

lemma ok_desktop_call:
  assumes "calm_on P env" and "stable P" and "\<not> is_model_call c"
  shows "io_ok P (desktop_call env c) (\<lambda>_. True)"
  using assms by (simp add: io_ok_def desktop_call_def stable_def calm_on_def)

lemma ok_screenshot:
  assumes "\<forall>h. \<exists>d. takeScreenshot env h = Inr d" and "stable P"
  shows "io_ok P (screenshot env) (\<lambda>_. True)"
proof (rule okI)
  fix s :: run_state
  assume P: "P (effects s)"
  obtain d where "takeScreenshot env (effects s) = Inr d" using assms(1) by blast
  then have "screenshot env s = (Inr d, s\<lparr>effects := effects s @ [TakeScreenshot]\<rparr>)"
    by (simp add: screenshot_def)
  moreover have "P (effects s @ [TakeScreenshot])"
    using assms(2) P by (simp add: stable_def is_model_call_def)
  ultimately show "\<exists>v. fst (screenshot env s) = Inr v \<and> True
                     \<and> P (effects (snd (screenshot env s)))"
    by simp
qed

lemmas ok_rules = ok_seq ok_catch ok_if ok_case_option ok_yield
  ok_set_currentUrl ok_push_content ok_push_responses

lemma stable_True: "stable (\<lambda>h. True)"
  by (simp add: stable_def)

lemma calm_on_True: "\<forall>h c. desktop_throws env h c = None \<Longrightarrow> calm_on (\<lambda>h. True) env"
  by (simp add: calm_on_def)

lemma executeAction_ok:
  assumes "calm_on P env" and "stable P"
  shows "io_ok P (executeAction env a) (\<lambda>_. True)"
  unfolding executeAction_def execute_switch_def Let_def
  by (intro ok_rules ok_desktop_call [OF assms] ok_perform [OF assms(2)] ok_return)
     (simp_all add: is_model_call_def)

text \<open>The actions the loop over the function calls executes when nothing throws.\<close>

lemma for_calls_ok:
  assumes "calm_on P env" and "stable P"
  shows "io_ok P (for_calls env ps acc) (\<lambda>ex. ex = acc @ List.map_filter valid_call ps)"
proof (induction ps arbitrary: acc)
  case Nil
  show ?case by (simp add: ok_return)
next
  case (Cons p ps)
  show ?case
  proof (cases "valid_call p")
    case None
    show ?thesis
      unfolding for_calls.simps None option.case
      using Cons.IH [of acc]
      by (intro ok_rules ok_perform [OF assms(2)]) (simp_all add: None is_model_call_def)
  next
    case (Some a)
    show ?thesis
      unfolding for_calls.simps Some option.case
      using Cons.IH [of "acc @ [a]"]
      by (intro ok_rules executeAction_ok [OF assms]) (simp add: Some)
  qed
qed

lemma for_calls_result:
  assumes "fst (for_calls env ps acc s) = Inr ex"
  shows "ex = acc @ List.map_filter valid_call ps"
  using assms
proof (induction ps arbitrary: acc s)
  case Nil
  then show ?case by (simp add: io_return_def)
next
  case (Cons p ps)
  show ?case
  proof (cases "valid_call p")
    case None
    have "fst (for_calls env ps acc (s\<lparr>effects := effects s @ [LogWarning]\<rparr>)) = Inr ex"
      using Cons.prems None by (simp add: io_seq_def io_bind_def perform_def)
    then have "ex = acc @ List.map_filter valid_call ps" by (rule Cons.IH)
    then show ?thesis using None by simp
  next
    case (Some a)
    obtain r s1 where ex: "executeAction env a (s\<lparr>events := events s @ [ACTION a]\<rparr>) = (r, s1)"
      by (cases "executeAction env a (s\<lparr>events := events s @ [ACTION a]\<rparr>)")
    have "fst (for_calls env ps (acc @ [a]) (s1\<lparr>events := events s1 @ [ACTION_COMPLETED]\<rparr>)) = Inr ex"
      using Cons.prems Some ex
      by (cases r) (simp_all add: io_seq_def io_bind_def yield_def)
    then have "ex = (acc @ [a]) @ List.map_filter valid_call ps" by (rule Cons.IH)
    then show ?thesis using Some by simp
  qed
qed

section \<open>The settle delay\<close>

lemma settle_delays_defined:
  assumes "\<forall>a \<in> set ex. settles a"
  shows "\<exists>ds. settle_delays ex = Inr ds \<and> length ds = length ex"
  using assms
proof (induction ex)
  case Nil
  show ?case by simp
next
  case (Cons a ex)
  obtain d where d: "getActionSettleDelay a = Inr d"
    using Cons.prems by (cases "getActionSettleDelay a") (simp_all add: settles_def)
  obtain ds where ds: "settle_delays ex = Inr ds" "length ds = length ex"
    using Cons by auto
  show ?case using d ds by simp
qed

lemma settle_ok:
  assumes "\<forall>a \<in> set ex. settles a" and "stable P"
  shows "io_ok P (settle ex) (\<lambda>_. True)"
proof -
  obtain ds where "settle_delays ex = Inr ds"
    using settle_delays_defined [OF assms(1)] by blast
  then show ?thesis
    using assms(2)
    by (simp add: io_ok_def settle_def io_return_def perform_def stable_def
        is_model_call_def split: list.splits)
qed

lemma settle_keeps_events: "io_keeps (\<lambda>s. f (events s)) (settle ex)"
  by (simp add: io_keeps_def settle_def io_return_def io_throw_def perform_def
      split: sum.splits list.splits)

lemma settle_keeps_effects:
  assumes "\<And>d. \<not> P (SetTimeout d)"
  shows "io_keeps (\<lambda>s. filter P (effects s)) (settle ex)"
  by (simp add: io_keeps_def settle_def io_return_def io_throw_def perform_def assms
      split: sum.splits list.splits)

section \<open>An iteration that goes on\<close>

lemma set_map_filter: "set (List.map_filter f xs) = {y. \<exists>x \<in> set xs. f x = Some y}"
  by (induction xs) (auto split: option.splits)

lemma map_filter_valid_calls:
  "List.map_filter valid_call (filter (\<lambda>p. functionCall p \<noteq> None) ps)
     = List.map_filter valid_call ps"
  by (induction ps) (auto simp: valid_call_def split: option.splits)

lemma process_parts_ok:
  assumes calm: "calm_on P env" and stable: "stable P"
    and shots: "\<forall>h. \<exists>d. takeScreenshot env h = Inr d"
    and acting: "acting_parts ps"
  shows "io_ok P (process_parts env cont ps) (\<lambda>c. c = Continue)"
proof -
  let ?fcs = "filter (\<lambda>p. functionCall p \<noteq> None) ps"
  have fcs: "?fcs \<noteq> []"
    using acting by (auto simp: acting_parts_def filter_empty_conv)
  have rest: "io_ok P (io_seq (settle ex)
          (io_bind (screenshot env) (\<lambda>screenshotBase64.
             io_seq (push_content cont)
               (io_seq (push_responses ?fcs screenshotBase64) (io_return Continue)))))
        (\<lambda>c. c = Continue)"
    if ex: "ex = [] @ List.map_filter valid_call ?fcs" for ex
  proof -
    have "\<forall>a \<in> set ex. settles a"
      using acting unfolding ex acting_parts_def
      by (auto simp: set_map_filter split: option.splits)
    then have 1: "io_ok P (settle ex) (\<lambda>_. True)" using stable by (rule settle_ok)
    have 2: "io_ok P (io_bind (screenshot env) (\<lambda>screenshotBase64.
             io_seq (push_content cont)
               (io_seq (push_responses ?fcs screenshotBase64) (io_return Continue))))
           (\<lambda>c. c = Continue)"
      by (rule ok_bind [OF ok_screenshot [OF shots stable]]) (intro ok_rules ok_return, simp)
    show ?thesis using 1 2 by (rule ok_seq)
  qed
  have calls: "io_ok P (io_bind (for_calls env ?fcs []) (\<lambda>executedActions.
          io_seq (settle executedActions)
          (io_bind (screenshot env) (\<lambda>screenshotBase64.
             io_seq (push_content cont)
               (io_seq (push_responses ?fcs screenshotBase64) (io_return Continue))))))
        (\<lambda>c. c = Continue)"
    using for_calls_ok [OF calm stable] rest by (rule ok_bind)
  show ?thesis
    unfolding process_parts_def yield_reasoning_def Let_def
    using fcs calls by (intro ok_seq ok_if ok_yield ok_return) simp_all
qed

lemma process_parts_keeps_finals:
  assumes "filter (\<lambda>p. functionCall p \<noteq> None) ps \<noteq> []"
  shows "io_keeps (\<lambda>s. filter is_final (events s)) (process_parts env cont ps)"
  unfolding process_parts_def yield_reasoning_def Let_def
  using assms
  by (intro keeps_rules keeps_events_yield for_calls_keeps_finals settle_keeps_events
        keeps_events_screenshot keeps_events_push_content keeps_events_push_responses)
     (simp_all add: is_final_def)

lemma process_parts_keeps_model_calls:
  "io_keeps (\<lambda>s. filter is_model_call (effects s)) (process_parts env cont ps)"
  unfolding process_parts_def yield_reasoning_def Let_def
  by (intro keeps_rules keeps_effects_yield [where f = "filter is_model_call"]
        for_calls_keeps_model_calls settle_keeps_effects
        keeps_effects_screenshot keeps_effects_push_content [where f = "filter is_model_call"]
        keeps_effects_push_responses [where f = "filter is_model_call"])
     (simp_all add: is_model_call_def)

lemma iteration_goes_on:
  assumes calm: "calm_on P env" and stable: "stable P"
    and shots: "\<forall>h. \<exists>d. takeScreenshot env h = Inr d"
    and model: "\<forall>cs. \<exists>r. generateContent env k cs = Inr r \<and> acting_turn r"
    and go: "\<not> aborted env k"
    and call: "\<forall>h. P h \<longrightarrow> P (h @ [GenerateContent k])"
    and P: "P (effects s)"
  shows "\<exists>s'. iteration env k s = (Inr Continue, s') \<and> P (effects s')
           \<and> model_calls s' = Suc (model_calls s) \<and> finals s' = finals s"
proof -
  define s1 where "s1 = s\<lparr>effects := effects s @ [LogDebug]\<rparr>"
  define s2 where "s2 = s1\<lparr>effects := effects s1 @ [GenerateContent k]\<rparr>"
  have "P (effects s1)" using stable P by (simp add: s1_def stable_def is_model_call_def)
  then have P2: "P (effects s2)" using call by (simp add: s2_def)
  obtain r where r: "generateContent env k (contents s1) = Inr r" and turn: "acting_turn r"
    using model by blast
  obtain c where c: "first_candidate r = Some c"
    using turn by (cases "first_candidate r") (simp_all add: acting_turn_def)
  obtain cont ps where cp: "content_parts c = Some (cont, ps)" and acting: "acting_parts ps"
    using turn c by (cases "content_parts c") (auto simp: acting_turn_def)
  have it: "iteration env k s = process_parts env cont ps s2"
    using go r c cp
    by (simp add: iteration_def io_seq_def io_bind_def perform_def call_model_def
        s1_def s2_def)
  obtain v s' where run: "process_parts env cont ps s2 = (Inr v, s')" and v: "v = Continue"
    and P': "P (effects s')"
    using process_parts_ok [OF calm stable shots acting] P2 by (rule okD)
  have fcs: "filter (\<lambda>p. functionCall p \<noteq> None) ps \<noteq> []"
    using acting by (auto simp: acting_parts_def filter_empty_conv)
  have "filter is_final (events s') = filter is_final (events s2)"
    using process_parts_keeps_finals [OF fcs, of env cont] run
    by (metis io_keeps_def snd_conv)
  then have f: "finals s' = finals s" by (simp add: finals_def s1_def s2_def)
  have "filter is_model_call (effects s') = filter is_model_call (effects s2)"
    using process_parts_keeps_model_calls [of env cont ps] run
    by (metis io_keeps_def snd_conv)
  then have m: "model_calls s' = Suc (model_calls s)"
    by (simp add: model_calls_def s1_def s2_def is_model_call_def)
  show ?thesis using it run v f m P' by simp
qed

declare agent_loop.simps [simp del]

text \<open>
  The loop goes from \<open>iterationCount = i\<close> to \<open>iterationCount = n\<close> when, in the
  iterations between, the signal is not set and the model answers with acting turns.
\<close>

lemma loop_advance:
  assumes calm: "calm_on P env" and stable: "stable P"
    and shots: "\<forall>h. \<exists>d. takeScreenshot env h = Inr d"
    and model: "\<forall>k. i < k \<and> k \<le> n
                  \<longrightarrow> (\<forall>cs. \<exists>r. generateContent env k cs = Inr r \<and> acting_turn r)"
    and go: "\<forall>k. i < k \<and> k \<le> n \<longrightarrow> \<not> aborted env k"
    and call: "\<forall>k h. i < k \<and> k \<le> n \<longrightarrow> P h \<longrightarrow> P (h @ [GenerateContent k])"
    and le: "i \<le> n" "n \<le> MAX_ITERATIONS"
    and P: "P (effects s)"
  shows "\<exists>s'. agent_loop env i s = agent_loop env n s' \<and> P (effects s')
           \<and> model_calls s' = model_calls s + (n - i) \<and> finals s' = finals s"
  using model go call le P
proof (induction "n - i" arbitrary: i s)
  case 0
  then have "i = n" by simp
  then show ?case using "0.prems" by auto
next
  case (Suc d)
  have i: "i < MAX_ITERATIONS" "Suc i \<le> n" "d = n - Suc i"
    using Suc.hyps(2) Suc.prems by simp_all
  have "\<not> aborted env (Suc i)" using Suc.prems(2) i by simp
  moreover have "\<forall>cs. \<exists>r. generateContent env (Suc i) cs = Inr r \<and> acting_turn r"
    using Suc.prems(1) i by simp
  moreover have "\<forall>h. P h \<longrightarrow> P (h @ [GenerateContent (Suc i)])"
    using Suc.prems(3) i by simp
  ultimately obtain s1 where s1: "iteration env (Suc i) s = (Inr Continue, s1)"
    "P (effects s1)" "model_calls s1 = Suc (model_calls s)" "finals s1 = finals s"
    using iteration_goes_on [OF calm stable shots, of "Suc i" s] Suc.prems(6) by blast
  have step: "agent_loop env i s = agent_loop env (Suc i) s1"
    using i(1) s1(1) by (subst agent_loop.simps) simp
  have "\<forall>k. Suc i < k \<and> k \<le> n
          \<longrightarrow> (\<forall>cs. \<exists>r. generateContent env k cs = Inr r \<and> acting_turn r)"
    using Suc.prems(1) by simp
  moreover have "\<forall>k. Suc i < k \<and> k \<le> n \<longrightarrow> \<not> aborted env k" using Suc.prems(2) by simp
  moreover have "\<forall>k h. Suc i < k \<and> k \<le> n \<longrightarrow> P h \<longrightarrow> P (h @ [GenerateContent k])"
    using Suc.prems(3) by simp
  ultimately obtain s' where "agent_loop env (Suc i) s1 = agent_loop env n s'"
    "P (effects s')"
    "model_calls s' = model_calls s1 + (n - Suc i)" "finals s' = finals s1"
    using Suc.hyps(1) [OF i(3) _ _ _ i(2) Suc.prems(5) s1(2)] by blast
  then show ?case using step s1 i by (intro exI [of _ s']) simp
qed

section \<open>The iteration limit\<close>

lemma agent_loop_at_limit: "agent_loop env MAX_ITERATIONS s = (Inr MAX_ITERATIONS, s)"
  by (subst agent_loop.simps) simp

lemma stream_unfold:
  "stream env messages s =
     (case takeScreenshot env (effects s) of
        Inl e \<Rightarrow> catch_block e (s\<lparr>effects := effects s @ [TakeScreenshot]\<rparr>)
      | Inr d \<Rightarrow> run_loop env 0 (s\<lparr>effects := effects s @ [TakeScreenshot],
                                    contents := initial_contents env messages d\<rparr>))"
  by (simp add: stream_def try_block_def run_loop_def io_catch_def io_bind_def io_seq_def
      screenshot_def split: sum.splits)

text \<open>
  C3. With a model client that always returns a turn with a function call, a
  cancellation signal that is never set, and a desktop and a screenshot capability that
  never throw, the run performs exactly 50 model calls, then yields one \<open>ERROR\<close> for
  the iteration limit followed by \<open>DONE\<close>, and stops: no other \<open>ERROR\<close> or \<open>DONE\<close>
  is yielded.
\<close>

theorem iteration_limit:
  assumes model: "\<forall>k cs. \<exists>r. generateContent env k cs = Inr r \<and> acting_turn r"
    and go: "\<forall>k. \<not> aborted env k"
    and calm: "\<forall>h c. desktop_throws env h c = None"
    and shots: "\<forall>h. \<exists>d. takeScreenshot env h = Inr d"
  shows "\<exists>s1. stream env messages s =
            (Inr (), s1\<lparr>events := events s1
               @ [ERROR ''Maximum iteration limit reached. Task may be too complex.'',
                  DONE None]\<rparr>)
          \<and> model_calls s1 = model_calls s + 50 \<and> finals s1 = finals s"
proof -
  obtain d where d: "takeScreenshot env (effects s) = Inr d" using shots by blast
  define s0 where "s0 = s\<lparr>effects := effects s @ [TakeScreenshot],
                           contents := initial_contents env messages d\<rparr>"
  have "\<forall>k. 0 < k \<and> k \<le> MAX_ITERATIONS \<longrightarrow> \<not> aborted env k" using go by simp
  then obtain s1 where s1: "agent_loop env 0 s0 = agent_loop env MAX_ITERATIONS s1"
    "model_calls s1 = model_calls s0 + (MAX_ITERATIONS - 0)" "finals s1 = finals s0"
    using loop_advance [OF calm_on_True [OF calm] stable_True shots, of 0 MAX_ITERATIONS s0]
      model
    by auto
  have loop: "agent_loop env 0 s0 = (Inr MAX_ITERATIONS, s1)"
    using s1(1) by (simp add: agent_loop_at_limit)
  have "stream env messages s = run_loop env 0 s0"
    using d by (simp add: stream_unfold s0_def)
  also have "\<dots> = (Inr (), s1\<lparr>events := events s1
               @ [ERROR ''Maximum iteration limit reached. Task may be too complex.'',
                  DONE None]\<rparr>)"
    using loop
    by (simp add: run_loop_def io_catch_def io_bind_def io_seq_def after_loop_def yield_def)
  finally have run: "stream env messages s = (Inr (), s1\<lparr>events := events s1
               @ [ERROR ''Maximum iteration limit reached. Task may be too complex.'',
                  DONE None]\<rparr>)" .
  have "model_calls s1 = model_calls s + 50"
    using s1(2) by (simp add: s0_def model_calls_def is_model_call_def MAX_ITERATIONS_def)
  moreover have "finals s1 = finals s" using s1(3) by (simp add: s0_def finals_def)
  ultimately show ?thesis using run by blast
qed

lemma click_turn_acting: "acting_turn (model_turn [click_part])"
  by (simp add: acting_turn_def model_turn_def first_candidate_def content_parts_def
      acting_parts_def click_part_def call_part_def no_part_def valid_call_def settles_def
      getActionSettleDelay_def)

theorem iteration_limit_witness:
  "\<exists>s1. stream click_env [(''user'', ''click the button'')] new_run =
            (Inr (), s1\<lparr>events := events s1
               @ [ERROR ''Maximum iteration limit reached. Task may be too complex.'',
                  DONE None]\<rparr>)
          \<and> model_calls s1 = 50 \<and> finals s1 = []"
  using iteration_limit [of click_env "[(''user'', ''click the button'')]" new_run]
    click_turn_acting
  by (simp add: click_env_def quiet_env_def new_run_def model_calls_def finals_def)

section \<open>Leaving the loop by \<open>break\<close>\<close>

lemma iteration_cancelled:
  assumes "aborted env k"
  shows "iteration env k s =
           (Inr Break, s\<lparr>events := events s @ [DONE (Some ''Generation stopped by user'')]\<rparr>)"
  using assms by (simp add: iteration_def io_seq_def io_bind_def io_return_def yield_def)

text \<open>
  C2, on the code. A model turn with no function call and no text makes the loop body
  yield \<open>DONE\<close> and \<open>break\<close>; the statement after the loop then yields \<open>DONE\<close>
  again. The run of \<open>quiet_env\<close> yields two \<open>DONE\<close> events, not one, and the stream
  is not over at the first.
\<close>

theorem no_calls_two_done:
  "stream quiet_env [(''user'', ''hello'')] new_run
     = (Inr (), new_run\<lparr>events := [DONE None, DONE None],
                         effects := [TakeScreenshot, LogDebug, GenerateContent 1],
                         contents := initial_contents quiet_env [(''user'', ''hello'')] ''png''\<rparr>)"
  by code_simp

text \<open>
  C5, on the code. When the cancellation signal is set before iteration 50 begins, that
  iteration makes no model call and executes no action, but \<open>iterationCount\<close> is
  already 50 when the loop is left, so the check after the loop yields the \<open>ERROR\<close> of
  the iteration limit between the two \<open>DONE\<close> events.
\<close>

theorem cancel_at_last_iteration:
  "\<exists>s1. stream late_cancel_env [(''user'', ''click the button'')] new_run =
            (Inr (), s1\<lparr>events := events s1
               @ [DONE (Some ''Generation stopped by user''),
                  ERROR ''Maximum iteration limit reached. Task may be too complex.'',
                  DONE None]\<rparr>)
          \<and> model_calls s1 = 49 \<and> finals s1 = []"
proof -
  let ?env = late_cancel_env
  have model: "\<forall>k cs. \<exists>r. generateContent ?env k cs = Inr r \<and> acting_turn r"
    using click_turn_acting by (simp add: late_cancel_env_def click_env_def)
  have calm: "\<forall>h c. desktop_throws ?env h c = None"
    by (simp add: late_cancel_env_def click_env_def quiet_env_def)
  have shots: "\<forall>h. \<exists>d. takeScreenshot ?env h = Inr d"
    by (simp add: late_cancel_env_def click_env_def quiet_env_def)
  have shot: "takeScreenshot ?env (effects new_run) = Inr ''png''"
    by (simp add: late_cancel_env_def click_env_def quiet_env_def)
  have go: "\<forall>k. 0 < k \<and> k \<le> 49 \<longrightarrow> \<not> aborted ?env k"
    by (simp add: late_cancel_env_def)
  have stop: "aborted ?env 50" by (simp add: late_cancel_env_def)
  define s0 where "s0 = new_run\<lparr>effects := effects new_run @ [TakeScreenshot],
     contents := initial_contents ?env [(''user'', ''click the button'')] ''png''\<rparr>"
  obtain s1 where s1: "agent_loop ?env 0 s0 = agent_loop ?env 49 s1"
    "model_calls s1 = model_calls s0 + (49 - 0)" "finals s1 = finals s0"
    using loop_advance [OF calm_on_True [OF calm] stable_True shots, of 0 49 s0] model go
    by (auto simp: MAX_ITERATIONS_def)
  have "agent_loop ?env 49 s1
          = (Inr 50, s1\<lparr>events := events s1 @ [DONE (Some ''Generation stopped by user'')]\<rparr>)"
    using iteration_cancelled [OF stop, of s1]
    by (subst agent_loop.simps) (simp add: MAX_ITERATIONS_def)
  then have loop: "agent_loop ?env 0 s0
          = (Inr 50, s1\<lparr>events := events s1 @ [DONE (Some ''Generation stopped by user'')]\<rparr>)"
    using s1(1) by simp
  have "stream ?env [(''user'', ''click the button'')] new_run = run_loop ?env 0 s0"
    using shot by (simp add: stream_unfold s0_def)
  also have "\<dots> = (Inr (), s1\<lparr>events := events s1
               @ [DONE (Some ''Generation stopped by user''),
                  ERROR ''Maximum iteration limit reached. Task may be too complex.'',
                  DONE None]\<rparr>)"
    using loop
    by (simp add: run_loop_def io_catch_def io_bind_def io_seq_def after_loop_def yield_def
        MAX_ITERATIONS_def)
  finally have run: "stream ?env [(''user'', ''click the button'')] new_run =
     (Inr (), s1\<lparr>events := events s1
               @ [DONE (Some ''Generation stopped by user''),
                  ERROR ''Maximum iteration limit reached. Task may be too complex.'',
                  DONE None]\<rparr>)" .
  have "model_calls s1 = 49"
    using s1(2) by (simp add: s0_def new_run_def model_calls_def is_model_call_def)
  moreover have "finals s1 = []" using s1(3) by (simp add: s0_def new_run_def finals_def)
  ultimately show ?thesis using run by blast
qed

section \<open>Typing with Enter\<close>

text \<open>
  C6, on the code. For a \<open>type_text_at\<close> whose \<open>press_enter\<close> is absent,
  \<open>executeAction\<close> presses Enter, and \<open>getActionSettleDelay\<close> returns
  \<open>text.length * 50\<close>, here 100, not 3000.
\<close>

theorem type_without_press_enter:
  "getActionSettleDelay type_ls = Inr 100
   \<and> executeAction quiet_env type_ls new_run
       = (Inr (), new_run\<lparr>effects :=
           [LeftClick (Some 960) (Some 540), Press (Some ''Control+a''),
            Press (Some ''Backspace''), Write (Some ''ls''), Press (Some ''Enter''),
            LogDebug]\<rparr>)"
  by code_simp

section \<open>Scrolling\<close>

lemmas io_defs = io_bind_def io_seq_def io_return_def io_throw_def io_catch_def yield_def
  perform_def desktop_call_def set_currentUrl_def

text \<open>What \<open>executeAction\<close> does for the two scroll actions, case by case.\<close>

lemma scroll_document_run:
  assumes "name action = ''scroll_document''"
  shows "executeAction env action s =
     (case arg_direction (args action) of
        None \<Rightarrow> (Inr (), s\<lparr>effects := effects s @ [LogWarning]\<rparr>)
      | Some d \<Rightarrow>
          if d = ''up'' \<or> d = ''down'' then
            (case desktop_throws env (effects s) (Scroll d 500) of
               None \<Rightarrow> (Inr (), s\<lparr>effects := effects s @ [Scroll d 500, LogDebug]\<rparr>)
             | Some e \<Rightarrow> (Inl e, s\<lparr>effects := effects s @ [Scroll d 500, LogError]\<rparr>))
          else (Inr (), s\<lparr>effects := effects s @ [LogWarning]\<rparr>))"
  using assms
  by (simp add: executeAction_def execute_switch_def io_defs Let_def split: option.splits)

lemma scroll_at_run:
  assumes "name action = ''scroll_at''"
  shows "executeAction env action s =
     (case desktop_throws env (effects s) (target_click env action) of
        Some e \<Rightarrow> (Inl e, s\<lparr>effects := effects s @ [target_click env action, LogError]\<rparr>)
      | None \<Rightarrow>
         (case arg_direction (args action) of
            None \<Rightarrow> (Inr (), s\<lparr>effects := effects s @ [target_click env action, LogWarning]\<rparr>)
          | Some d \<Rightarrow>
              if d = ''up'' \<or> d = ''down'' then
                (case desktop_throws env (effects s @ [target_click env action])
                        (Scroll d (scroll_amount action)) of
                   None \<Rightarrow> (Inr (), s\<lparr>effects := effects s
                       @ [target_click env action, Scroll d (scroll_amount action), LogDebug]\<rparr>)
                 | Some e \<Rightarrow> (Inl e, s\<lparr>effects := effects s
                       @ [target_click env action, Scroll d (scroll_amount action), LogError]\<rparr>))
              else (Inr (), s\<lparr>effects := effects s @ [target_click env action, LogWarning]\<rparr>)))"
  using assms
  by (simp add: executeAction_def execute_switch_def io_defs Let_def scroll_amount_def
      target_click_def split: option.splits)

text \<open>
  C9. Every execution of a \<open>scroll_at\<close> starts with a left click at the denormalized
  coordinates of the action, before the direction is looked at; with direction \<open>left\<close>
  or \<open>right\<close> an execution that does not throw consists of that click and a warning.
\<close>

theorem scroll_at_clicks_first:
  assumes "name action = ''scroll_at''"
  shows "(\<exists>rest. effects (snd (executeAction env action s))
            = effects s @ target_click env action # rest)
       \<and> ((arg_direction (args action) = Some ''left''
            \<or> arg_direction (args action) = Some ''right'')
           \<and> fst (executeAction env action s) = Inr ()
          \<longrightarrow> effects (snd (executeAction env action s))
              = effects s @ [target_click env action, LogWarning])"
  by (auto simp: scroll_at_run [OF assms] split: option.splits)

theorem scroll_at_clicks_first_witness:
  "effects (snd (executeAction quiet_env scroll_left new_run))
     = [LeftClick (Some 960) (Some 540), LogWarning]"
proof -
  have n: "name scroll_left = ''scroll_at''" by (simp add: scroll_left_def)
  have d: "arg_direction (args scroll_left) = Some ''left''"
    by (simp add: scroll_left_def no_args_def)
  have ok: "fst (executeAction quiet_env scroll_left new_run) = Inr ()" by code_simp
  have c: "target_click quiet_env scroll_left = LeftClick (Some 960) (Some 540)" by code_simp
  have e: "effects new_run = []" by (simp add: new_run_def)
  show ?thesis
    using scroll_at_clicks_first [OF n, of quiet_env new_run] d ok
    unfolding c e by simp
qed

lemma scroll_document_directions:
  assumes "name action = ''scroll_document''"
  shows "\<forall>d m. Scroll d m \<in> set (effects (snd (executeAction env action s)))
            \<longrightarrow> Scroll d m \<in> set (effects s)
                \<or> (arg_direction (args action) = Some d \<and> (d = ''up'' \<or> d = ''down''))"
    and "arg_direction (args action) = Some ''left''
           \<or> arg_direction (args action) = Some ''right''
          \<Longrightarrow> executeAction env action s
                = (Inr (), s\<lparr>effects := effects s @ [LogWarning]\<rparr>)"
    and "arg_direction (args action) = Some ''up''
           \<or> arg_direction (args action) = Some ''down''
          \<Longrightarrow> \<exists>d rest. arg_direction (args action) = Some d
                \<and> effects (snd (executeAction env action s))
                    = effects s @ Scroll d 500 # rest"
  by (auto simp: scroll_document_run [OF assms] split: option.splits)

lemma scroll_at_directions:
  assumes "name action = ''scroll_at''"
  shows "\<forall>d m. Scroll d m \<in> set (effects (snd (executeAction env action s)))
            \<longrightarrow> Scroll d m \<in> set (effects s)
                \<or> (arg_direction (args action) = Some d \<and> (d = ''up'' \<or> d = ''down''))"
    and "(arg_direction (args action) = Some ''left''
           \<or> arg_direction (args action) = Some ''right'')
          \<and> fst (executeAction env action s) = Inr ()
          \<Longrightarrow> executeAction env action s
                = (Inr (), s\<lparr>effects := effects s @ [target_click env action, LogWarning]\<rparr>)"
    and "(arg_direction (args action) = Some ''up''
           \<or> arg_direction (args action) = Some ''down'')
          \<and> fst (executeAction env action s) = Inr ()
          \<Longrightarrow> \<exists>d. arg_direction (args action) = Some d
                \<and> effects (snd (executeAction env action s))
                    = effects s @ [target_click env action,
                                   Scroll d (scroll_amount action), LogDebug]"
  by (auto simp: scroll_at_run [OF assms] target_click_def split: option.splits)

text \<open>
  C7, as the code has it. For \<open>scroll_document\<close> and \<open>scroll_at\<close> only the
  directions \<open>up\<close> and \<open>down\<close> cause a scroll on the desktop. With \<open>left\<close> or
  \<open>right\<close>, \<open>scroll_document\<close> makes no call to the desktop and only logs a warning,
  without throwing; \<open>scroll_at\<close> makes no scroll call either, but its focusing left
  click is made first, and the warning follows when the click did not throw.
\<close>

theorem scroll_directions:
  "(name action = ''scroll_document'' \<or> name action = ''scroll_at''
      \<longrightarrow> (\<forall>d m. Scroll d m \<in> set (effects (snd (executeAction env action s)))
            \<longrightarrow> Scroll d m \<in> set (effects s)
                \<or> (arg_direction (args action) = Some d \<and> (d = ''up'' \<or> d = ''down''))))
   \<and> (name action = ''scroll_document''
        \<and> (arg_direction (args action) = Some ''left''
            \<or> arg_direction (args action) = Some ''right'')
      \<longrightarrow> executeAction env action s
            = (Inr (), s\<lparr>effects := effects s @ [LogWarning]\<rparr>))
   \<and> (name action = ''scroll_at''
        \<and> (arg_direction (args action) = Some ''left''
            \<or> arg_direction (args action) = Some ''right'')
        \<and> fst (executeAction env action s) = Inr ()
      \<longrightarrow> executeAction env action s
            = (Inr (), s\<lparr>effects := effects s @ [target_click env action, LogWarning]\<rparr>))
   \<and> (name action = ''scroll_document''
        \<and> (arg_direction (args action) = Some ''up''
            \<or> arg_direction (args action) = Some ''down'')
      \<longrightarrow> (\<exists>d rest. arg_direction (args action) = Some d
            \<and> effects (snd (executeAction env action s))
                = effects s @ Scroll d 500 # rest))
   \<and> (name action = ''scroll_at''
        \<and> (arg_direction (args action) = Some ''up''
            \<or> arg_direction (args action) = Some ''down'')
        \<and> fst (executeAction env action s) = Inr ()
      \<longrightarrow> (\<exists>d. arg_direction (args action) = Some d
            \<and> effects (snd (executeAction env action s))
                = effects s @ [target_click env action,
                               Scroll d (scroll_amount action), LogDebug]))"
  using scroll_document_directions [of action env s] scroll_at_directions [of action env s]
  by blast

theorem scroll_directions_witness:
  "executeAction quiet_env
     \<lparr>name = ''scroll_document'', args = no_args\<lparr>arg_direction := Some ''right''\<rparr>\<rparr> new_run
     = (Inr (), new_run\<lparr>effects := [LogWarning]\<rparr>)
   \<and> executeAction quiet_env scroll_left new_run
     = (Inr (), new_run\<lparr>effects := [LeftClick (Some 960) (Some 540), LogWarning]\<rparr>)"
proof -
  let ?doc = "\<lparr>name = ''scroll_document'', args = no_args\<lparr>arg_direction := Some ''right''\<rparr>\<rparr>"
  have 1: "name ?doc = ''scroll_document''
      \<and> (arg_direction (args ?doc) = Some ''left'' \<or> arg_direction (args ?doc) = Some ''right'')"
    by (simp add: no_args_def)
  have 2: "name scroll_left = ''scroll_at''
      \<and> (arg_direction (args scroll_left) = Some ''left''
          \<or> arg_direction (args scroll_left) = Some ''right'')
      \<and> fst (executeAction quiet_env scroll_left new_run) = Inr ()"
    by code_simp
  have c: "target_click quiet_env scroll_left = LeftClick (Some 960) (Some 540)" by code_simp
  have e: "effects new_run = []" by (simp add: new_run_def)
  show ?thesis
    using scroll_directions [of ?doc quiet_env new_run] 1
      scroll_directions [of scroll_left quiet_env new_run] 2
    unfolding c e by simp
qed

text \<open>
  The claim as written fails for \<open>scroll_at\<close>: with direction \<open>left\<close> the desktop
  still receives a left click.
\<close>

theorem horizontal_scroll_at_clicks:
  "executeAction quiet_env scroll_left new_run
     = (Inr (), new_run\<lparr>effects := [LeftClick (Some 960) (Some 540), LogWarning]\<rparr>)"
  by code_simp

section \<open>Errors\<close>

lemma starts_with_iff: "starts_with s sub \<longleftrightarrow> (\<exists>b. s = sub @ b)"
  by (induction s sub rule: starts_with.induct) auto

lemma str_includes_iff: "str_includes s sub \<longleftrightarrow> (\<exists>a b. s = a @ sub @ b)"
proof (induction s)
  case Nil
  show ?case by auto
next
  case (Cons c s)
  show ?case
  proof
    assume "str_includes (c # s) sub"
    then consider "starts_with (c # s) sub" | "str_includes s sub" by auto
    then show "\<exists>a b. c # s = a @ sub @ b"
    proof cases
      case 1
      then obtain b where "c # s = sub @ b" using starts_with_iff by blast
      then have "c # s = [] @ sub @ b" by simp
      then show ?thesis by blast
    next
      case 2
      then obtain a b where "s = a @ sub @ b" using Cons.IH by blast
      then have "c # s = (c # a) @ sub @ b" by simp
      then show ?thesis by blast
    qed
  next
    assume "\<exists>a b. c # s = a @ sub @ b"
    then obtain a b where ab: "c # s = a @ sub @ b" by blast
    show "str_includes (c # s) sub"
    proof (cases a)
      case Nil
      then have "starts_with (c # s) sub" using ab starts_with_iff by auto
      then show ?thesis by simp
    next
      case (Cons x a')
      then have "s = a' @ sub @ b" using ab by simp
      then have "str_includes s sub" using Cons.IH by blast
      then show ?thesis by simp
    qed
  qed
qed

lemma iteration_model_throw:
  assumes "\<not> aborted env k" and "generateContent env k (contents s) = Inl e"
  shows "iteration env k s = (Inl e, s\<lparr>effects := effects s @ [LogDebug, GenerateContent k]\<rparr>)"
  using assms
  by (simp add: iteration_def io_seq_def io_bind_def perform_def call_model_def)

lemma for_calls_action_throw:
  assumes "valid_call p = Some a"
    and "fst (executeAction env a (s\<lparr>events := events s @ [ACTION a]\<rparr>)) = Inl e"
  shows "for_calls env (p # ps) acc s
           = (Inl e, snd (executeAction env a (s\<lparr>events := events s @ [ACTION a]\<rparr>)))"
  using assms
  by (cases "executeAction env a (s\<lparr>events := events s @ [ACTION a]\<rparr>)")
     (simp add: io_seq_def io_bind_def yield_def)

lemma process_parts_throw:
  assumes "fst (for_calls env (filter (\<lambda>p. functionCall p \<noteq> None) ps) []
                  (snd (yield_reasoning ps s))) = Inl e"
  shows "fst (process_parts env cont ps s) = Inl e"
proof -
  let ?fcs = "filter (\<lambda>p. functionCall p \<noteq> None) ps"
  have r: "fst (yield_reasoning ps s) = Inr ()"
    by (simp add: yield_reasoning_def Let_def yield_def io_return_def)
  have "?fcs \<noteq> []"
  proof
    assume "?fcs = []"
    then have "fst (for_calls env ?fcs [] (snd (yield_reasoning ps s))) = Inr []"
      by (simp add: io_return_def)
    then show False using assms by simp
  qed
  then show ?thesis
    using assms r
    by (cases "yield_reasoning ps s";
        cases "for_calls env ?fcs [] (snd (yield_reasoning ps s))")
       (simp add: process_parts_def Let_def io_seq_def io_bind_def)
qed

lemma run_loop_throw:
  assumes "iterationCount < MAX_ITERATIONS"
    and "iteration env (Suc iterationCount) s = (Inl e, s1)"
  shows "run_loop env iterationCount s
           = (Inr (), s1\<lparr>effects := effects s1 @ [LogError],
                          events := events s1 @ [ERROR (error_content e), DONE None]\<rparr>)"
proof -
  have "agent_loop env iterationCount s = (Inl e, s1)"
    using assms by (subst agent_loop.simps) simp
  then show ?thesis
    by (simp add: run_loop_def io_catch_def io_bind_def io_seq_def catch_block_def
        perform_def yield_def)
qed

lemma sublist_includes: "str_includes m sub \<longleftrightarrow> sublist sub m"
  by (simp add: str_includes_iff sublist_def)

lemma error_content_sublist:
  "error_content e =
     (case e of
        ErrorObj m \<Rightarrow>
          if sublist ''quota'' m \<or> sublist ''429'' m \<or> sublist ''RESOURCE_EXHAUSTED'' m
          then QUOTA_MESSAGE
          else if sublist ''API key'' m \<or> sublist ''API_KEY'' m then AUTH_MESSAGE
          else ''Error: '' @ m
      | NonError \<Rightarrow> SERVICE_MESSAGE)"
  by (simp add: error_content_def sublist_includes split: thrown.splits)

lemma calls_since_append:
  assumes "GenerateContent k \<in> set h"
  shows "calls_since k (h @ cs) = calls_since k h + length (filter is_desktop cs)"
  using assms by (simp add: calls_since_def dropWhile_append1)

lemma calls_since_call:
  assumes "GenerateContent k \<notin> set h"
  shows "calls_since k (h @ [GenerateContent k]) = 0"
proof -
  have "dropWhile (\<lambda>c. c \<noteq> GenerateContent k) (h @ [GenerateContent k])
          = dropWhile (\<lambda>c. c \<noteq> GenerateContent k) [GenerateContent k]"
    using assms by (intro dropWhile_append2) auto
  then show ?thesis by (simp add: calls_since_def is_desktop_def)
qed

text \<open>
  The calls to the desktop \<open>executeAction\<close> makes, on a desktop that serves \<open>n\<close>
  calls after the model call of iteration \<open>k\<close> and throws from the next on: with
  enough calls left the action is executed and makes \<open>desktop_calls\<close> calls, otherwise
  it throws.
\<close>

lemma executeAction_counted:
  assumes env: "\<forall>h c. GenerateContent k \<in> set h
                  \<longrightarrow> desktop_throws env h c = (if n \<le> calls_since k h then Some e else None)"
    and called: "GenerateContent k \<in> set (effects s)"
    and room: "calls_since k (effects s) + desktop_calls a \<le> n"
  shows "\<exists>s'. executeAction env a s = (Inr (), s') \<and> GenerateContent k \<in> set (effects s')
           \<and> calls_since k (effects s') = calls_since k (effects s) + desktop_calls a"
proof -
  consider "name a = ''click_at''" | "name a = ''hover_at''" | "name a = ''key_combination''"
    | "name a = ''drag_and_drop''" | "name a = ''type_text_at''" | "name a = ''scroll_document''"
    | "name a = ''scroll_at''"
    | "name a \<noteq> ''click_at''" "name a \<noteq> ''hover_at''" "name a \<noteq> ''key_combination''"
      "name a \<noteq> ''drag_and_drop''" "name a \<noteq> ''type_text_at''"
      "name a \<noteq> ''scroll_document''" "name a \<noteq> ''scroll_at''"
    by blast
  then show ?thesis
  proof cases
    case 1
    then show ?thesis using assms
      by (simp add: executeAction_def execute_switch_def io_defs Let_def desktop_calls_def
          calls_since_append is_desktop_def)
  next
    case 2
    then show ?thesis using assms
      by (simp add: executeAction_def execute_switch_def io_defs Let_def desktop_calls_def
          calls_since_append is_desktop_def)
  next
    case 3
    then show ?thesis using assms
      by (simp add: executeAction_def execute_switch_def io_defs Let_def desktop_calls_def
          calls_since_append is_desktop_def)
  next
    case 4
    then show ?thesis using assms
      by (simp add: executeAction_def execute_switch_def io_defs Let_def desktop_calls_def
          calls_since_append is_desktop_def)
  next
    case 5
    then show ?thesis using assms
      by (cases "arg_clear_before_typing (args a) = Some False";
          cases "arg_press_enter (args a) = Some False")
         (simp_all add: executeAction_def execute_switch_def io_defs Let_def desktop_calls_def
          calls_since_append is_desktop_def)
  next
    case 6
    then show ?thesis using assms
      by (auto simp add: executeAction_def execute_switch_def io_defs Let_def desktop_calls_def
          calls_since_append is_desktop_def split: option.splits if_splits)
  next
    case 7
    then show ?thesis using assms
      by (auto simp add: executeAction_def execute_switch_def io_defs Let_def desktop_calls_def
          calls_since_append is_desktop_def split: option.splits if_splits)
  next
    case 8
    then show ?thesis using assms
      by (simp add: executeAction_def execute_switch_def io_defs Let_def desktop_calls_def
          calls_since_append is_desktop_def)
  qed
qed


lemma executeAction_out_of_calls:
  assumes env: "\<forall>h c. GenerateContent k \<in> set h
                  \<longrightarrow> desktop_throws env h c = (if n \<le> calls_since k h then Some e else None)"
    and called: "GenerateContent k \<in> set (effects s)"
    and sofar: "calls_since k (effects s) \<le> n"
    and more: "n < calls_since k (effects s) + desktop_calls a"
  shows "fst (executeAction env a s) = Inl e"
proof -
  consider "name a = ''click_at''" | "name a = ''hover_at''" | "name a = ''key_combination''"
    | "name a = ''drag_and_drop''" | "name a = ''type_text_at''" | "name a = ''scroll_document''"
    | "name a = ''scroll_at''"
    | "name a \<noteq> ''click_at''" "name a \<noteq> ''hover_at''" "name a \<noteq> ''key_combination''"
      "name a \<noteq> ''drag_and_drop''" "name a \<noteq> ''type_text_at''"
      "name a \<noteq> ''scroll_document''" "name a \<noteq> ''scroll_at''"
    by blast
  then show ?thesis
  proof cases
    case 1
    then show ?thesis using assms
      by (simp add: executeAction_def execute_switch_def io_defs Let_def desktop_calls_def
          calls_since_append is_desktop_def)
  next
    case 2
    then show ?thesis using assms
      by (simp add: executeAction_def execute_switch_def io_defs Let_def desktop_calls_def
          calls_since_append is_desktop_def)
  next
    case 3
    then show ?thesis using assms
      by (simp add: executeAction_def execute_switch_def io_defs Let_def desktop_calls_def
          calls_since_append is_desktop_def)
  next
    case 4
    then show ?thesis using assms
      by (simp add: executeAction_def execute_switch_def io_defs Let_def desktop_calls_def
          calls_since_append is_desktop_def)
  next
    case 5
    then show ?thesis using assms
      by (cases "arg_clear_before_typing (args a) = Some False";
          cases "arg_press_enter (args a) = Some False")
         (auto simp add: executeAction_def execute_switch_def io_defs Let_def desktop_calls_def
          calls_since_append is_desktop_def)
  next
    case 6
    then show ?thesis using assms
      by (auto simp add: executeAction_def execute_switch_def io_defs Let_def desktop_calls_def
          calls_since_append is_desktop_def split: option.splits if_splits)
  next
    case 7
    then show ?thesis using assms
      by (auto simp add: executeAction_def execute_switch_def io_defs Let_def desktop_calls_def
          calls_since_append is_desktop_def split: option.splits if_splits)
  next
    case 8
    then show ?thesis using assms
      by (simp add: executeAction_def execute_switch_def io_defs Let_def desktop_calls_def
          calls_since_append is_desktop_def)
  qed
qed

lemma stable_not_called: "stable (\<lambda>h. GenerateContent k \<notin> set h)"
  by (auto simp: stable_def is_model_call_def)

text \<open>
  On a desktop that throws from its call \<open>n + 1\<close> of turn \<open>k\<close> on, the loop over the
  calls of that turn throws when the actions left to execute make more calls than are
  left.
\<close>

lemma for_calls_out_of_calls:
  assumes env: "\<forall>h c. GenerateContent k \<in> set h
                  \<longrightarrow> desktop_throws env h c = (if n \<le> calls_since k h then Some e else None)"
    and "GenerateContent k \<in> set (effects s)"
    and "calls_since k (effects s) \<le> n"
    and "n < calls_since k (effects s)
               + sum_list (map desktop_calls (List.map_filter valid_call ps))"
  shows "fst (for_calls env ps acc s) = Inl e"
  using assms(2-4)
proof (induction ps arbitrary: acc s)
  case Nil
  then show ?case by (simp add: List.map_filter_simps)
next
  case (Cons p ps)
  show ?case
  proof (cases "valid_call p")
    case None
    let ?s = "s\<lparr>effects := effects s @ [LogWarning]\<rparr>"
    have c: "calls_since k (effects ?s) = calls_since k (effects s)"
      using Cons.prems(1) by (simp add: calls_since_append is_desktop_def)
    have "for_calls env (p # ps) acc s = for_calls env ps acc ?s"
      using None by (simp add: io_seq_def io_bind_def perform_def)
    moreover have "fst (for_calls env ps acc ?s) = Inl e"
      using Cons.prems None unfolding c [symmetric]
      by (intro Cons.IH) (simp_all add: List.map_filter_simps)
    ultimately show ?thesis by simp
  next
    case (Some a)
    let ?s = "s\<lparr>events := events s @ [ACTION a]\<rparr>"
    have called: "GenerateContent k \<in> set (effects ?s)" using Cons.prems(1) by simp
    have sofar: "calls_since k (effects ?s) \<le> n" using Cons.prems(2) by simp
    show ?thesis
    proof (cases "calls_since k (effects s) + desktop_calls a \<le> n")
      case True
      then have "calls_since k (effects ?s) + desktop_calls a \<le> n" by simp
      with env called obtain s' where run: "executeAction env a ?s = (Inr (), s')"
        and s': "GenerateContent k \<in> set (effects s')"
        and c: "calls_since k (effects s') = calls_since k (effects ?s) + desktop_calls a"
        using executeAction_counted by blast
      let ?s' = "s'\<lparr>events := events s' @ [ACTION_COMPLETED]\<rparr>"
      have "for_calls env (p # ps) acc s = for_calls env ps (acc @ [a]) ?s'"
        using Some run by (simp add: io_seq_def io_bind_def yield_def)
      moreover have "fst (for_calls env ps (acc @ [a]) ?s') = Inl e"
        using s' c True Cons.prems(3) Some
        by (intro Cons.IH) (simp_all add: List.map_filter_simps)
      ultimately show ?thesis by simp
    next
      case False
      then have "n < calls_since k (effects ?s) + desktop_calls a" by simp
      with env called sofar have "fst (executeAction env a ?s) = Inl e"
        by (rule executeAction_out_of_calls)
      with Some show ?thesis using for_calls_action_throw [of p a env s e ps acc] by simp
    qed
  qed
qed

lemma yield_reasoning_effects: "effects (snd (yield_reasoning ps s)) = effects s"
  by (simp add: yield_reasoning_def Let_def yield_def io_return_def)

text \<open>An iteration whose model call throws, and one in which an action throws.\<close>

lemma iteration_model_throws:
  assumes "\<not> aborted env k" and "\<forall>cs. generateContent env k cs = Inl e"
  shows "\<exists>s'. iteration env k s = (Inl e, s')
           \<and> model_calls s' = Suc (model_calls s) \<and> finals s' = finals s"
proof -
  have "iteration env k s = (Inl e, s\<lparr>effects := effects s @ [LogDebug, GenerateContent k]\<rparr>)"
    using assms by (intro iteration_model_throw) simp_all
  then show ?thesis by (simp add: model_calls_def finals_def is_model_call_def)
qed

lemma iteration_action_throws:
  assumes go: "\<not> aborted env k"
    and env: "\<forall>h c. GenerateContent k \<in> set h
                \<longrightarrow> desktop_throws env h c = (if n \<le> calls_since k h then Some e else None)"
    and model: "\<forall>cs. \<exists>r. generateContent env k cs = Inr r \<and> n < turn_calls r"
    and fresh: "GenerateContent k \<notin> set (effects s)"
  shows "\<exists>s'. iteration env k s = (Inl e, s')
           \<and> model_calls s' = Suc (model_calls s) \<and> finals s' = finals s"
proof -
  define s1 where "s1 = s\<lparr>effects := effects s @ [LogDebug]\<rparr>"
  define s2 where "s2 = s1\<lparr>effects := effects s1 @ [GenerateContent k]\<rparr>"
  obtain r where r: "generateContent env k (contents s1) = Inr r" and turn: "n < turn_calls r"
    using model by blast
  obtain c where c: "first_candidate r = Some c"
    using turn by (cases "first_candidate r") (simp_all add: turn_calls_def)
  obtain cont ps where cp: "content_parts c = Some (cont, ps)"
    and more: "n < sum_list (map desktop_calls (List.map_filter valid_call ps))"
    using turn c by (cases "content_parts c") (auto simp: turn_calls_def)
  let ?fcs = "filter (\<lambda>p. functionCall p \<noteq> None) ps"
  have it: "iteration env k s = process_parts env cont ps s2"
    using go r c cp
    by (simp add: iteration_def io_seq_def io_bind_def perform_def call_model_def
        s1_def s2_def)
  have more': "n < sum_list (map desktop_calls (List.map_filter valid_call ?fcs))"
    using more by (simp only: map_filter_valid_calls)
  then have "List.map_filter valid_call ?fcs \<noteq> []" by auto
  then have fcs: "?fcs \<noteq> []" by (auto simp: List.map_filter_simps)
  let ?s = "snd (yield_reasoning ps s2)"
  have "GenerateContent k \<notin> set (effects s1)" using fresh by (simp add: s1_def)
  then have zero: "calls_since k (effects s2) = 0"
    unfolding s2_def by (simp add: calls_since_call)
  have "GenerateContent k \<in> set (effects ?s)"
    by (simp add: yield_reasoning_effects s2_def)
  moreover have "calls_since k (effects ?s) \<le> n"
    using zero by (simp add: yield_reasoning_effects)
  moreover have "n < calls_since k (effects ?s)
                       + sum_list (map desktop_calls (List.map_filter valid_call ?fcs))"
    using zero more' by (simp add: yield_reasoning_effects)
  ultimately have "fst (for_calls env ?fcs [] ?s) = Inl e"
    using env by (intro for_calls_out_of_calls [where k = k and n = n]) simp_all
  then have thrown: "fst (process_parts env cont ps s2) = Inl e" by (rule process_parts_throw)
  define s' where "s' = snd (process_parts env cont ps s2)"
  have run: "process_parts env cont ps s2 = (Inl e, s')"
    using thrown by (simp add: s'_def prod_eq_iff)
  have "filter is_final (events s') = filter is_final (events s2)"
    using process_parts_keeps_finals [OF fcs, of env cont] run
    by (metis io_keeps_def snd_conv)
  then have f: "finals s' = finals s" by (simp add: finals_def s1_def s2_def)
  have "filter is_model_call (effects s') = filter is_model_call (effects s2)"
    using process_parts_keeps_model_calls [of env cont ps] run
    by (metis io_keeps_def snd_conv)
  then have m: "model_calls s' = Suc (model_calls s)"
    by (simp add: model_calls_def s1_def s2_def is_model_call_def)
  show ?thesis using it run f m by simp
qed

text \<open>
  C8. Let the run reach iteration \<open>k\<close>, the turns before it keeping the loop going, and
  let iteration \<open>k\<close> throw \<open>e\<close>: either its model call throws, or a call to the
  desktop throws in the execution of an action of its turn. For the second, the desktop
  serves \<open>n\<close> calls of the turn and throws from the next on, and the turn makes more than
  \<open>n\<close> calls, so that the throw may come at the first call of the turn, in a later
  action, or in the middle of an action. Then the run yields one \<open>ERROR\<close> and then
  \<open>DONE\<close> and ends: these are its only \<open>ERROR\<close> and \<open>DONE\<close> events, nothing
  follows them, and no model call is made after that of iteration \<open>k\<close>. The
  \<open>ERROR\<close> is the quota message when the message of the thrown \<open>Error\<close> contains
  \<open>quota\<close>, \<open>429\<close> or \<open>RESOURCE_EXHAUSTED\<close>; otherwise the key message when it
  contains \<open>API key\<close> or \<open>API_KEY\<close>; otherwise \<open>Error: \<close> followed by the
  message; and the service message when what was thrown is not an \<open>Error\<close>. Here
  \<open>sublist u m\<close> says that \<open>u\<close> occurs in \<open>m\<close>.
\<close>

theorem thrown_error_ends_run:
  assumes k: "0 < k \<and> k \<le> MAX_ITERATIONS"
    and shots: "\<forall>h. \<exists>d. takeScreenshot env h = Inr d"
    and go: "\<forall>j. 0 < j \<and> j \<le> k \<longrightarrow> \<not> aborted env j"
    and before: "\<forall>j. 0 < j \<and> j < k
                   \<longrightarrow> (\<forall>cs. \<exists>r. generateContent env j cs = Inr r \<and> acting_turn r)"
    and fresh: "GenerateContent k \<notin> set (effects s)"
    and throw: "((\<forall>h c. desktop_throws env h c = None)
                  \<and> (\<forall>cs. generateContent env k cs = Inl e))
                \<or> ((\<forall>h c. desktop_throws env h c
                              = (if GenerateContent k \<in> set h \<and> n \<le> calls_since k h
                                 then Some e else None))
                    \<and> (\<forall>cs. \<exists>r. generateContent env k cs = Inr r \<and> n < turn_calls r))"
  shows "\<exists>s1. stream env messages s =
            (Inr (), s1\<lparr>events := events s1
               @ [ERROR (case e of
                           ErrorObj m \<Rightarrow>
                             if sublist ''quota'' m \<or> sublist ''429'' m
                                \<or> sublist ''RESOURCE_EXHAUSTED'' m then QUOTA_MESSAGE
                             else if sublist ''API key'' m \<or> sublist ''API_KEY'' m
                             then AUTH_MESSAGE
                             else ''Error: '' @ m
                         | NonError \<Rightarrow> SERVICE_MESSAGE),
                  DONE None]\<rparr>)
          \<and> model_calls s1 = model_calls s + k \<and> finals s1 = finals s"
proof -
  let ?P = "\<lambda>h. GenerateContent k \<notin> set h"
  obtain d where d: "takeScreenshot env (effects s) = Inr d" using shots by blast
  define s0 where "s0 = s\<lparr>effects := effects s @ [TakeScreenshot],
                           contents := initial_contents env messages d\<rparr>"
  obtain i where i: "k = Suc i" using k by (cases k) simp_all
  have calm: "calm_on ?P env" using throw by (auto simp: calm_on_def)
  have P0: "?P (effects s0)" using fresh by (simp add: s0_def)
  have model: "\<forall>j. 0 < j \<and> j \<le> i
                 \<longrightarrow> (\<forall>cs. \<exists>r. generateContent env j cs = Inr r \<and> acting_turn r)"
    using before i by simp
  have go': "\<forall>j. 0 < j \<and> j \<le> i \<longrightarrow> \<not> aborted env j" using go i by simp
  have call: "\<forall>j h. 0 < j \<and> j \<le> i \<longrightarrow> ?P h \<longrightarrow> ?P (h @ [GenerateContent j])"
    using i by simp
  have le: "0 \<le> i" "i \<le> MAX_ITERATIONS" using k i by simp_all
  obtain s1 where s1: "agent_loop env 0 s0 = agent_loop env i s1" "?P (effects s1)"
    "model_calls s1 = model_calls s0 + (i - 0)" "finals s1 = finals s0"
    using loop_advance [OF calm stable_not_called shots model go' call le P0] by blast
  have "\<not> aborted env k" using go k by simp
  then obtain s2 where s2: "iteration env (Suc i) s1 = (Inl e, s2)"
    "model_calls s2 = Suc (model_calls s1)" "finals s2 = finals s1"
    using throw s1(2) iteration_model_throws [of env k e s1]
      iteration_action_throws [of env k n e s1] unfolding i by auto
  have lt: "i < MAX_ITERATIONS" using k i by simp
  define s3 where "s3 = s2\<lparr>effects := effects s2 @ [LogError]\<rparr>"
  have "run_loop env i s1
          = (Inr (), s2\<lparr>effects := effects s2 @ [LogError],
                         events := events s2 @ [ERROR (error_content e), DONE None]\<rparr>)"
    using lt s2(1) by (rule run_loop_throw)
  moreover have "run_loop env 0 s0 = run_loop env i s1"
    using s1(1) by (simp add: run_loop_def io_catch_def io_bind_def)
  moreover have "stream env messages s = run_loop env 0 s0"
    using d by (simp add: stream_unfold s0_def)
  ultimately have run: "stream env messages s
      = (Inr (), s3\<lparr>events := events s3 @ [ERROR (error_content e), DONE None]\<rparr>)"
    by (simp add: s3_def)
  have "model_calls s3 = model_calls s + k"
    using s1(3) s2(2) i
    by (simp add: s3_def s0_def model_calls_def is_model_call_def)
  moreover have "finals s3 = finals s" using s1(4) s2(3) by (simp add: s3_def s0_def finals_def)
  ultimately show ?thesis
    using run unfolding error_content_sublist by blast
qed

lemma failing_model_run:
  assumes "0 < k \<and> k \<le> MAX_ITERATIONS"
  shows "(\<forall>h. \<exists>d. takeScreenshot (failing_model_env k e) h = Inr d)
    \<and> (\<forall>j. 0 < j \<and> j \<le> k \<longrightarrow> \<not> aborted (failing_model_env k e) j)
    \<and> (\<forall>j. 0 < j \<and> j < k
           \<longrightarrow> (\<forall>cs. \<exists>r. generateContent (failing_model_env k e) j cs = Inr r \<and> acting_turn r))
    \<and> GenerateContent k \<notin> set (effects new_run)
    \<and> (\<forall>h c. desktop_throws (failing_model_env k e) h c = None)
    \<and> (\<forall>cs. generateContent (failing_model_env k e) k cs = Inl e)"
  using assms click_turn_acting
  by (simp add: failing_model_env_def click_env_def quiet_env_def new_run_def)

lemma failing_desktop_run:
  assumes "0 < k \<and> k \<le> MAX_ITERATIONS" and "n < turn_calls (model_turn turn)"
  shows "(\<forall>h. \<exists>d. takeScreenshot (failing_desktop_env k n e turn) h = Inr d)
    \<and> (\<forall>j. 0 < j \<and> j \<le> k \<longrightarrow> \<not> aborted (failing_desktop_env k n e turn) j)
    \<and> (\<forall>j. 0 < j \<and> j < k
           \<longrightarrow> (\<forall>cs. \<exists>r. generateContent (failing_desktop_env k n e turn) j cs = Inr r
                          \<and> acting_turn r))
    \<and> GenerateContent k \<notin> set (effects new_run)
    \<and> (\<forall>h c. desktop_throws (failing_desktop_env k n e turn) h c
                   = (if GenerateContent k \<in> set h \<and> n \<le> calls_since k h then Some e
                      else None))
    \<and> (\<forall>cs. \<exists>r. generateContent (failing_desktop_env k n e turn) k cs = Inr r
                          \<and> n < turn_calls r)"
  using assms click_turn_acting
  by (simp add: failing_desktop_env_def click_env_def quiet_env_def new_run_def)

lemma late_enter_calls: "turn_calls (model_turn late_enter) = 6"
  by (simp add: turn_calls_def model_turn_def first_candidate_def content_parts_def
      late_enter_def click_part_def call_part_def no_part_def valid_call_def
      List.map_filter_simps desktop_calls_def no_args_def)

lemma click_calls: "turn_calls (model_turn [click_part]) = 1"
  by (simp add: turn_calls_def model_turn_def first_candidate_def content_parts_def
      click_part_def call_part_def no_part_def valid_call_def
      List.map_filter_simps desktop_calls_def)

lemma new_run_counts: "model_calls new_run = 0" "finals new_run = []"
  by (simp_all add: new_run_def model_calls_def finals_def)

theorem thrown_error_ends_run_witness:
  "(\<exists>s1. stream (failing_model_env 2 (ErrorObj ''429 RESOURCE_EXHAUSTED: limit reached''))
            [(''user'', ''hello'')] new_run
          = (Inr (), s1\<lparr>events := events s1 @ [ERROR QUOTA_MESSAGE, DONE None]\<rparr>)
        \<and> model_calls s1 = 2 \<and> finals s1 = [])
   \<and> (\<exists>s1. stream (failing_desktop_env 2 3 (ErrorObj ''API key not valid'') late_enter)
            [(''user'', ''hello'')] new_run
          = (Inr (), s1\<lparr>events := events s1 @ [ERROR AUTH_MESSAGE, DONE None]\<rparr>)
        \<and> model_calls s1 = 2 \<and> finals s1 = [])
   \<and> (\<exists>s1. stream (failing_model_env 50 (ErrorObj ''connection reset''))
            [(''user'', ''hello'')] new_run
          = (Inr (), s1\<lparr>events := events s1 @ [ERROR ''Error: connection reset'', DONE None]\<rparr>)
        \<and> model_calls s1 = 50 \<and> finals s1 = [])
   \<and> (\<exists>s1. stream (failing_desktop_env 1 0 NonError [click_part])
            [(''user'', ''hello'')] new_run
          = (Inr (), s1\<lparr>events := events s1 @ [ERROR SERVICE_MESSAGE, DONE None]\<rparr>)
        \<and> model_calls s1 = 1 \<and> finals s1 = [])"
proof -
  let ?quota = "''429 RESOURCE_EXHAUSTED: limit reached''"
  let ?key = "''API key not valid''"
  let ?other = "''connection reset''"
  let ?msgs = "[(''user'', ''hello'')]"
  have q: "sublist ''429'' ?quota" by code_simp
  have a: "\<not> (sublist ''quota'' ?key \<or> sublist ''429'' ?key
               \<or> sublist ''RESOURCE_EXHAUSTED'' ?key)"
    "sublist ''API key'' ?key" by code_simp+
  have o: "\<not> (sublist ''quota'' ?other \<or> sublist ''429'' ?other
               \<or> sublist ''RESOURCE_EXHAUSTED'' ?other
               \<or> sublist ''API key'' ?other \<or> sublist ''API_KEY'' ?other)" by code_simp
  have k: "0 < (2::nat) \<and> 2 \<le> MAX_ITERATIONS" "0 < (50::nat) \<and> 50 \<le> MAX_ITERATIONS"
    "0 < (1::nat) \<and> 1 \<le> MAX_ITERATIONS"
    by (simp_all add: MAX_ITERATIONS_def)
  have t: "3 < turn_calls (model_turn late_enter)" "0 < turn_calls (model_turn [click_part])"
    by (simp_all add: late_enter_calls click_calls)
  have r1: "\<exists>s1. stream (failing_model_env 2 (ErrorObj ?quota)) ?msgs new_run
          = (Inr (), s1\<lparr>events := events s1 @ [ERROR QUOTA_MESSAGE, DONE None]\<rparr>)
        \<and> model_calls s1 = 2 \<and> finals s1 = []"
    using thrown_error_ends_run [where k = 2 and e = "ErrorObj ?quota" and s = new_run
        and env = "failing_model_env 2 (ErrorObj ?quota)" and messages = ?msgs]
      failing_model_run [OF k(1), where e = "ErrorObj ?quota"] k(1) q
    by (simp add: new_run_counts del: add_2_eq_Suc add_2_eq_Suc')
  have r2: "\<exists>s1. stream (failing_desktop_env 2 3 (ErrorObj ?key) late_enter) ?msgs new_run
          = (Inr (), s1\<lparr>events := events s1 @ [ERROR AUTH_MESSAGE, DONE None]\<rparr>)
        \<and> model_calls s1 = 2 \<and> finals s1 = []"
    using thrown_error_ends_run [where k = 2 and n = 3 and e = "ErrorObj ?key" and s = new_run
        and env = "failing_desktop_env 2 3 (ErrorObj ?key) late_enter" and messages = ?msgs]
      failing_desktop_run [OF k(1) t(1), where e = "ErrorObj ?key"] k(1) a
    by (simp add: new_run_counts del: add_2_eq_Suc add_2_eq_Suc')
  have r3: "\<exists>s1. stream (failing_model_env 50 (ErrorObj ?other)) ?msgs new_run
          = (Inr (), s1\<lparr>events := events s1 @ [ERROR ''Error: connection reset'', DONE None]\<rparr>)
        \<and> model_calls s1 = 50 \<and> finals s1 = []"
    using thrown_error_ends_run [where k = 50 and e = "ErrorObj ?other" and s = new_run
        and env = "failing_model_env 50 (ErrorObj ?other)" and messages = ?msgs]
      failing_model_run [OF k(2), where e = "ErrorObj ?other"] k(2) o
    by (simp add: new_run_counts del: add_2_eq_Suc add_2_eq_Suc')
  have r4: "\<exists>s1. stream (failing_desktop_env 1 0 NonError [click_part]) ?msgs new_run
          = (Inr (), s1\<lparr>events := events s1 @ [ERROR SERVICE_MESSAGE, DONE None]\<rparr>)
        \<and> model_calls s1 = 1 \<and> finals s1 = []"
    using thrown_error_ends_run [where k = 1 and n = 0 and e = NonError and s = new_run
        and env = "failing_desktop_env 1 0 NonError [click_part]" and messages = ?msgs]
      failing_desktop_run [OF k(3) t(2), where e = NonError] k(3)
    by (simp add: new_run_counts del: add_2_eq_Suc add_2_eq_Suc')
  show ?thesis using r1 r2 r3 r4 by blast
qed

text \<open>
  A throw in the middle of a turn, step by step: the \<open>click_at\<close> and the \<open>navigate\<close>
  are executed and completed, the call without a name is skipped, the \<open>type_text_at\<close>
  clicks and selects, and the press of Backspace, the fourth call of the turn, throws.
  The run yields no \<open>ACTION_COMPLETED\<close> for the last action and ends with the
  \<open>ERROR\<close> of the key message and \<open>DONE\<close>.
\<close>

lemma failing_backspace_run:
  "stream (failing_desktop_env 1 3 (ErrorObj ''API key not valid'') late_enter)
      [(''user'', ''hello'')] new_run
     = (Inr (), new_run\<lparr>events :=
           [ACTION \<lparr>name = ''click_at'',
                    args = no_args\<lparr>arg_x := Some 500, arg_y := Some 500\<rparr>\<rparr>,
            ACTION_COMPLETED,
            ACTION \<lparr>name = ''navigate'',
                    args = no_args\<lparr>arg_url := Some ''https://example.com''\<rparr>\<rparr>,
            ACTION_COMPLETED,
            ACTION \<lparr>name = ''type_text_at'',
                    args = no_args\<lparr>arg_x := Some 100, arg_y := Some 100,
                             arg_text := Some ''ls''\<rparr>\<rparr>,
            ERROR AUTH_MESSAGE, DONE None],
         effects := [TakeScreenshot, LogDebug, GenerateContent 1,
                     LeftClick (Some 960) (Some 540), LogDebug, LogDebug, LogWarning,
                     LeftClick (Some 192) (Some 108), Press (Some ''Control+a''),
                     Press (Some ''Backspace''), LogError, LogError],
         contents := initial_contents
            (failing_desktop_env 1 3 (ErrorObj ''API key not valid'') late_enter)
            [(''user'', ''hello'')] ''png'',
         currentUrl := Some ''https://example.com''\<rparr>)"
  by code_simp

section \<open>One model turn\<close>

lemma keeps_perform_frame:
  assumes "\<And>s x. obs (s\<lparr>effects := x\<rparr>) = obs s"
  shows "io_keeps obs (perform c)"
  by (simp add: io_keeps_def perform_def assms)

lemma keeps_desktop_call_frame:
  assumes "\<And>s x. obs (s\<lparr>effects := x\<rparr>) = obs s"
  shows "io_keeps obs (desktop_call env c)"
  by (simp add: io_keeps_def desktop_call_def assms split: option.splits)

lemma keeps_yield_frame:
  assumes "\<And>s x. obs (s\<lparr>events := x\<rparr>) = obs s"
  shows "io_keeps obs (yield e)"
  by (simp add: io_keeps_def yield_def assms)

lemma executeAction_keeps_contents: "io_keeps contents (executeAction env a)"
  unfolding executeAction_def execute_switch_def Let_def
  by (intro keeps_rules keeps_perform_frame keeps_desktop_call_frame)
     (simp_all add: io_keeps_def set_currentUrl_def)

lemma for_calls_keeps_contents: "io_keeps contents (for_calls env ps acc)"
proof (induction ps arbitrary: acc)
  case Nil
  show ?case by (simp add: keeps_return)
next
  case (Cons p ps)
  show ?case
    unfolding for_calls.simps
    by (intro keeps_rules keeps_perform_frame keeps_yield_frame Cons.IH
          executeAction_keeps_contents) simp_all
qed

lemma for_calls_keeps_timeouts:
  assumes "\<forall>p \<in> set ps. \<forall>a. valid_call p = Some a \<longrightarrow> name a \<noteq> ''wait_5_seconds''"
  shows "io_keeps (\<lambda>s. filter is_timeout (effects s)) (for_calls env ps acc)"
  using assms
proof (induction ps arbitrary: acc)
  case Nil
  show ?case by (simp add: keeps_return)
next
  case (Cons p ps)
  have rest: "io_keeps (\<lambda>s. filter is_timeout (effects s)) (for_calls env ps acc')" for acc'
    using Cons by simp
  have act: "io_keeps (\<lambda>s. filter is_timeout (effects s)) (executeAction env a)"
    if "valid_call p = Some a" for a
    using Cons.prems that by (intro executeAction_keeps_timeouts) simp
  show ?case
    unfolding for_calls.simps
    by (intro keeps_rules keeps_effects_perform
          keeps_effects_yield [where f = "filter is_timeout"] rest act)
       (simp_all add: is_timeout_def)
qed

lemma settle_delays_length:
  "settle_delays ex = Inr ds \<Longrightarrow> length ds = length ex"
  by (induction ex arbitrary: ds) (auto split: sum.splits)

lemma settle_run:
  assumes "settle ex s = (Inr (), s')" and "ex \<noteq> []"
  shows "\<exists>ds. settle_delays ex = Inr ds \<and> ds \<noteq> []
           \<and> s' = s\<lparr>effects := effects s @ [SetTimeout (Max (set ds))]\<rparr>"
proof (cases "settle_delays ex")
  case (Inl e)
  then show ?thesis using assms by (simp add: settle_def io_throw_def)
next
  case (Inr ds)
  then have "length ds = length ex" by (rule settle_delays_length)
  then obtain d ds' where ds: "ds = d # ds'" using assms(2) by (cases ds) auto
  have "s' = s\<lparr>effects := effects s @ [SetTimeout (fold max ds' d)]\<rparr>"
    using assms Inr ds by (simp add: settle_def perform_def)
  moreover have "Max (set ds) = fold max ds' d"
    unfolding ds by (rule Max.set_eq_fold)
  ultimately show ?thesis using Inr ds by simp
qed

text \<open>The steps of a loop body that reaches its end.\<close>

lemma process_parts_Continue:
  assumes "fst (process_parts env cont ps s) = Inr Continue"
  obtains s1 s2 s3 d where
    "effects s1 = effects s" and "contents s1 = contents s"
    and "filter (\<lambda>p. functionCall p \<noteq> None) ps \<noteq> []"
    and "for_calls env (filter (\<lambda>p. functionCall p \<noteq> None) ps) [] s1
           = (Inr (List.map_filter valid_call ps), s2)"
    and "settle (List.map_filter valid_call ps) s2 = (Inr (), s3)"
    and "takeScreenshot env (effects s3) = Inr d"
    and "snd (process_parts env cont ps s)
           = s3\<lparr>effects := effects s3 @ [TakeScreenshot],
                contents := contents s3
                  @ [cont,
                     \<lparr>role = ''user'',
                      parts = Some (map (response_part (currentUrl s3))
                                      (filter (\<lambda>p. functionCall p \<noteq> None) ps)
                                    @ [image_part d])\<rparr>]\<rparr>"
proof -
  let ?fcs = "filter (\<lambda>p. functionCall p \<noteq> None) ps"
  let ?rest = "\<lambda>executedActions.
           io_seq (settle executedActions)
          (io_bind (screenshot env) (\<lambda>screenshotBase64.
           io_seq (push_content cont)
          (io_seq (push_responses ?fcs screenshotBase64)
                  (io_return Continue))))"
  obtain ev where yr: "yield_reasoning ps s = (Inr (), s\<lparr>events := events s @ ev\<rparr>)"
  proof (cases "fst (yield_reasoning ps s) = fst (io_return () s)
                \<and> snd (yield_reasoning ps s) = s")
    case True
    then have "yield_reasoning ps s = (Inr (), s\<lparr>events := events s @ []\<rparr>)"
      by (simp add: io_return_def prod_eq_iff)
    then show ?thesis by (rule that)
  next
    case False
    then obtain t where "yield_reasoning ps s = yield (REASONING t) s"
      by (auto simp: yield_reasoning_def Let_def io_return_def split: if_splits)
    then have "yield_reasoning ps s = (Inr (), s\<lparr>events := events s @ [REASONING t]\<rparr>)"
      by (simp add: yield_def)
    then show ?thesis by (rule that)
  qed
  define s1 where "s1 = s\<lparr>events := events s @ ev\<rparr>"
  have s1: "effects s1 = effects s" "contents s1 = contents s" by (simp_all add: s1_def)
  have pp: "process_parts env cont ps s =
       (if ?fcs = [] then io_seq (yield (DONE None)) (io_return Break)
        else io_bind (for_calls env ?fcs []) ?rest) s1"
    using yr by (simp add: process_parts_def Let_def io_seq_def io_bind_def s1_def)
  have fcs: "?fcs \<noteq> []"
  proof
    assume "?fcs = []"
    then have "fst (process_parts env cont ps s) = Inr Break"
      unfolding pp by (simp add: io_seq_def io_bind_def yield_def io_return_def)
    then show False using assms by simp
  qed
  then have pp': "process_parts env cont ps s = io_bind (for_calls env ?fcs []) ?rest s1"
    using pp by simp
  obtain r2 s2 where f: "for_calls env ?fcs [] s1 = (r2, s2)"
    by (cases "for_calls env ?fcs [] s1")
  obtain ex where r2: "r2 = Inr ex"
    using assms pp' f by (cases r2) (simp_all add: io_bind_def)
  have "fst (for_calls env ?fcs [] s1) = Inr ex" unfolding f r2 by simp
  then have "ex = [] @ List.map_filter valid_call ?fcs" by (rule for_calls_result)
  then have ex: "ex = List.map_filter valid_call ps"
    by (simp only: map_filter_valid_calls append_Nil)
  obtain r3 s3 where st: "settle ex s2 = (r3, s3)" by (cases "settle ex s2")
  have r3: "r3 = Inr ()"
    using assms pp' f r2 st by (cases r3) (simp_all add: io_bind_def io_seq_def)
  obtain d where d: "takeScreenshot env (effects s3) = Inr d"
    using assms pp' f r2 st r3
    by (cases "takeScreenshot env (effects s3)")
       (simp_all add: io_bind_def io_seq_def screenshot_def)
  have final: "snd (process_parts env cont ps s)
           = s3\<lparr>effects := effects s3 @ [TakeScreenshot],
                contents := contents s3
                  @ [cont,
                     \<lparr>role = ''user'',
                      parts = Some (map (response_part (currentUrl s3)) ?fcs
                                    @ [image_part d])\<rparr>]\<rparr>"
    using pp' f r2 st r3 d
    by (simp add: io_bind_def io_seq_def screenshot_def push_content_def
        push_responses_def io_return_def)
  show ?thesis
    using that [OF s1 fcs _ _ d final] f r2 ex st r3 by simp
qed

lemma settle_keeps_contents: "io_keeps contents (settle ex)"
  by (simp add: io_keeps_def settle_def io_return_def io_throw_def perform_def
      split: sum.splits list.splits)

lemma keepsD: "io_keeps obs m \<Longrightarrow> m s = (r, s') \<Longrightarrow> obs s' = obs s"
  by (metis io_keeps_def snd_conv)

lemma settle_delays_map:
  "settle_delays ex = Inr ds \<Longrightarrow> map getActionSettleDelay ex = map Inr ds"
  by (induction ex arbitrary: ds) (auto split: sum.splits)

text \<open>
  C4. In a loop body that reaches its end with at least one executed action, the wait
  for the UI to settle is one \<open>setTimeout\<close> that comes after the effects of all the
  executions, right before the screenshot, and its delay is the maximum of the values
  \<open>getActionSettleDelay\<close> returns for the executed actions. It is the only
  \<open>setTimeout\<close> the loop body adds, unless an executed action is \<open>wait_5_seconds\<close>,
  whose execution is itself a wait. Delays 400, 3000 and 200 give one wait of 3000 ms,
  and two delays of 400 one wait of 400 ms.
\<close>

theorem settle_once_with_maximum:
  assumes "fst (process_parts env cont ps s) = Inr Continue"
    and "\<exists>p \<in> set ps. valid_call p \<noteq> None"
  shows "\<exists>ds s1 s2. effects s1 = effects s
          \<and> for_calls env (filter (\<lambda>p. functionCall p \<noteq> None) ps) [] s1
              = (Inr (List.map_filter valid_call ps), s2)
          \<and> map getActionSettleDelay (List.map_filter valid_call ps) = map Inr ds \<and> ds \<noteq> []
          \<and> effects (snd (process_parts env cont ps s))
              = effects s2 @ [SetTimeout (Max (set ds)), TakeScreenshot]
          \<and> ((\<forall>p \<in> set ps. \<forall>a. valid_call p = Some a \<longrightarrow> name a \<noteq> ''wait_5_seconds'')
              \<longrightarrow> timeouts (snd (process_parts env cont ps s))
                  = timeouts s @ [SetTimeout (Max (set ds))])"
proof -
  let ?fcs = "filter (\<lambda>p. functionCall p \<noteq> None) ps"
  let ?ex = "List.map_filter valid_call ps"
  obtain s1 s2 s3 d where s1: "effects s1 = effects s" and "contents s1 = contents s"
    and "?fcs \<noteq> []"
    and f: "for_calls env ?fcs [] s1 = (Inr ?ex, s2)"
    and st: "settle ?ex s2 = (Inr (), s3)"
    and "takeScreenshot env (effects s3) = Inr d"
    and final: "snd (process_parts env cont ps s)
           = s3\<lparr>effects := effects s3 @ [TakeScreenshot],
                contents := contents s3
                  @ [cont,
                     \<lparr>role = ''user'',
                      parts = Some (map (response_part (currentUrl s3)) ?fcs
                                    @ [image_part d])\<rparr>]\<rparr>"
    using assms(1) by (rule process_parts_Continue)
  have "?ex \<noteq> []"
    using assms(2) set_map_filter [of valid_call ps]
    by (auto simp: set_empty [symmetric] simp del: set_empty)
  then obtain ds where ds: "settle_delays ?ex = Inr ds" "ds \<noteq> []"
    and s3: "s3 = s2\<lparr>effects := effects s2 @ [SetTimeout (Max (set ds))]\<rparr>"
    using settle_run [OF st] by blast
  have m: "map getActionSettleDelay ?ex = map Inr ds"
    using ds(1) by (rule settle_delays_map)
  have e: "effects (snd (process_parts env cont ps s))
              = effects s2 @ [SetTimeout (Max (set ds)), TakeScreenshot]"
    unfolding final s3 by simp
  have "timeouts (snd (process_parts env cont ps s))
              = timeouts s @ [SetTimeout (Max (set ds))]"
    if "\<forall>p \<in> set ps. \<forall>a. valid_call p = Some a \<longrightarrow> name a \<noteq> ''wait_5_seconds''"
  proof -
    have "\<forall>p \<in> set ?fcs. \<forall>a. valid_call p = Some a \<longrightarrow> name a \<noteq> ''wait_5_seconds''"
      using that by auto
    then have "io_keeps (\<lambda>s. filter is_timeout (effects s)) (for_calls env ?fcs [])"
      by (rule for_calls_keeps_timeouts)
    then have "filter is_timeout (effects s2) = filter is_timeout (effects s1)"
      using f by (rule keepsD)
    then have "timeouts s2 = timeouts s" using s1 by (simp add: timeouts_def)
    then show ?thesis using e by (simp add: timeouts_def is_timeout_def)
  qed
  then show ?thesis using s1 f m ds(2) e by blast
qed

text \<open>
  C10. A function call whose name or args is missing is skipped: the loop over the
  calls only logs a warning for it and goes on with the calls that follow, so no
  \<open>ACTION\<close> or \<open>ACTION_COMPLETED\<close> is yielded for it and it is not executed. When the
  loop body reaches its end, the turn pushed after the model's turn holds one function
  response for every function-call part, the skipped ones too, each carrying the name of
  its call as it was, absent when the name was.
\<close>

theorem incomplete_call_skipped:
  "(functionCall p = Some fc \<and> (call_name fc = None \<or> call_args fc = None)
      \<longrightarrow> for_calls env (p # ps) acc s
            = for_calls env ps acc (s\<lparr>effects := effects s @ [LogWarning]\<rparr>))
   \<and> (fst (process_parts env cont qs s) = Inr Continue
      \<longrightarrow> (\<exists>d. contents (snd (process_parts env cont qs s))
             = contents s
               @ [cont,
                  \<lparr>role = ''user'',
                   parts = Some (map (response_part
                                        (currentUrl (snd (process_parts env cont qs s))))
                                   (filter (\<lambda>p. functionCall p \<noteq> None) qs)
                                 @ [image_part d])\<rparr>]))
   \<and> (functionCall p = Some fc
      \<longrightarrow> response_part u p
            = no_part\<lparr>functionResponse := Some (FunctionResponse (call_name fc) u)\<rparr>)"
proof -
  have 1: "for_calls env (p # ps) acc s
            = for_calls env ps acc (s\<lparr>effects := effects s @ [LogWarning]\<rparr>)"
    if "functionCall p = Some fc" "call_name fc = None \<or> call_args fc = None"
  proof -
    have "valid_call p = None"
      using that by (auto simp: valid_call_def split: option.splits)
    then show ?thesis by (simp add: io_seq_def io_bind_def perform_def)
  qed
  have 2: "\<exists>d. contents (snd (process_parts env cont qs s))
             = contents s
               @ [cont,
                  \<lparr>role = ''user'',
                   parts = Some (map (response_part
                                        (currentUrl (snd (process_parts env cont qs s))))
                                   (filter (\<lambda>p. functionCall p \<noteq> None) qs)
                                 @ [image_part d])\<rparr>]"
    if c: "fst (process_parts env cont qs s) = Inr Continue"
  proof -
    let ?fcs = "filter (\<lambda>p. functionCall p \<noteq> None) qs"
    obtain s1 s2 s3 d where "effects s1 = effects s" and s1: "contents s1 = contents s"
      and "?fcs \<noteq> []"
      and f: "for_calls env ?fcs [] s1 = (Inr (List.map_filter valid_call qs), s2)"
      and st: "settle (List.map_filter valid_call qs) s2 = (Inr (), s3)"
      and "takeScreenshot env (effects s3) = Inr d"
      and final: "snd (process_parts env cont qs s)
           = s3\<lparr>effects := effects s3 @ [TakeScreenshot],
                contents := contents s3
                  @ [cont,
                     \<lparr>role = ''user'',
                      parts = Some (map (response_part (currentUrl s3)) ?fcs
                                    @ [image_part d])\<rparr>]\<rparr>"
      using c by (rule process_parts_Continue)
    have "contents s2 = contents s1" using for_calls_keeps_contents f by (rule keepsD)
    moreover have "contents s3 = contents s2" using settle_keeps_contents st by (rule keepsD)
    ultimately have "contents s3 = contents s" using s1 by simp
    then show ?thesis unfolding final by (intro exI [of _ d]) simp
  qed
  have 3: "response_part u p
            = no_part\<lparr>functionResponse := Some (FunctionResponse (call_name fc) u)\<rparr>"
    if "functionCall p = Some fc"
    using that by (simp add: response_part_def)
  show ?thesis using 1 2 3 by blast
qed

lemma quiet_env_calm:
  "\<forall>h c. desktop_throws quiet_env h c = None"
  "\<forall>h. \<exists>d. takeScreenshot quiet_env h = Inr d"
  by (simp_all add: quiet_env_def)

lemma ok_Continue:
  assumes "io_ok (\<lambda>h. True) m (\<lambda>c. c = Continue)"
  shows "fst (m s) = Inr Continue"
  using assms by (rule okD [where s = s]) simp_all

lemma three_calls_valid:
  "List.map_filter valid_call three_calls =
     [\<lparr>name = ''click_at'', args = no_args\<lparr>arg_x := Some 500, arg_y := Some 500\<rparr>\<rparr>,
      \<lparr>name = ''type_text_at'',
       args = no_args\<lparr>arg_x := Some 100, arg_y := Some 100, arg_text := Some ''ls'',
                 arg_press_enter := Some True\<rparr>\<rparr>,
      \<lparr>name = ''scroll_document'', args = no_args\<lparr>arg_direction := Some ''down''\<rparr>\<rparr>]"
  by (simp add: three_calls_def click_part_def call_part_def valid_call_def no_part_def)

lemma three_calls_delays:
  "map getActionSettleDelay (List.map_filter valid_call three_calls)
     = [Inr 400, Inr 3000, Inr 200]"
  unfolding three_calls_valid by (simp add: getActionSettleDelay_def no_args_def)

lemma three_calls_acting: "acting_parts three_calls"
  by (simp add: acting_parts_def three_calls_def click_part_def call_part_def valid_call_def
      no_part_def settles_def getActionSettleDelay_def no_args_def)

lemma two_clicks_valid:
  "List.map_filter valid_call two_clicks =
     [\<lparr>name = ''click_at'', args = no_args\<lparr>arg_x := Some 500, arg_y := Some 500\<rparr>\<rparr>,
      \<lparr>name = ''click_at'', args = no_args\<lparr>arg_x := Some 100, arg_y := Some 200\<rparr>\<rparr>]"
  by (simp add: two_clicks_def click_part_def call_part_def valid_call_def no_part_def)

lemma two_clicks_delays:
  "map getActionSettleDelay (List.map_filter valid_call two_clicks) = [Inr 400, Inr 400]"
  unfolding two_clicks_valid by (simp add: getActionSettleDelay_def)

lemma two_clicks_acting: "acting_parts two_clicks"
  by (simp add: acting_parts_def two_clicks_def click_part_def call_part_def valid_call_def
      no_part_def settles_def getActionSettleDelay_def)

lemma no_wait:
  assumes "\<forall>a \<in> set (List.map_filter valid_call ps). name a \<noteq> ''wait_5_seconds''"
  shows "\<forall>p \<in> set ps. \<forall>a. valid_call p = Some a \<longrightarrow> name a \<noteq> ''wait_5_seconds''"
  using assms by (auto simp: set_map_filter)

theorem settle_once_with_maximum_witness:
  "map getActionSettleDelay (List.map_filter valid_call three_calls)
     = [Inr 400, Inr 3000, Inr 200]
   \<and> timeouts (snd (process_parts quiet_env \<lparr>role = ''model'', parts = Some three_calls\<rparr>
                       three_calls new_run))
     = [SetTimeout 3000]
   \<and> map getActionSettleDelay (List.map_filter valid_call two_clicks) = [Inr 400, Inr 400]
   \<and> timeouts (snd (process_parts quiet_env \<lparr>role = ''model'', parts = Some two_clicks\<rparr>
                       two_clicks new_run))
     = [SetTimeout 400]"
proof -
  have t: "timeouts new_run = []" by (simp add: timeouts_def new_run_def)
  have run: "timeouts (snd (process_parts quiet_env \<lparr>role = ''model'', parts = Some ps\<rparr>
                              ps new_run))
               = [SetTimeout (Max (set ds))]"
    if acting: "acting_parts ps"
      and valid: "\<exists>p \<in> set ps. valid_call p \<noteq> None"
      and calm: "\<forall>a \<in> set (List.map_filter valid_call ps). name a \<noteq> ''wait_5_seconds''"
      and delays: "map getActionSettleDelay (List.map_filter valid_call ps) = map Inr ds"
    for ps ds
  proof -
    let ?c = "\<lparr>role = ''model'', parts = Some ps\<rparr>"
    have 1: "fst (process_parts quiet_env ?c ps new_run) = Inr Continue"
      using process_parts_ok [OF calm_on_True [OF quiet_env_calm(1)] stable_True
          quiet_env_calm(2) acting]
      by (rule ok_Continue)
    obtain ds' where ds': "map getActionSettleDelay (List.map_filter valid_call ps) = map Inr ds'"
      and r: "timeouts (snd (process_parts quiet_env ?c ps new_run))
                = timeouts new_run @ [SetTimeout (Max (set ds'))]"
      using settle_once_with_maximum [OF 1 valid] no_wait [OF calm] by blast
    have "map Inr ds' = (map Inr ds :: (thrown + nat) list)" using ds' delays by simp
    then have "ds' = ds" by (simp add: inj_map_eq_map)
    then show ?thesis using r t by simp
  qed
  have v3: "\<exists>p \<in> set three_calls. valid_call p \<noteq> None"
    by (simp add: three_calls_def click_part_def call_part_def valid_call_def no_part_def)
  have w3: "\<forall>a \<in> set (List.map_filter valid_call three_calls). name a \<noteq> ''wait_5_seconds''"
    unfolding three_calls_valid by simp
  have d3: "map getActionSettleDelay (List.map_filter valid_call three_calls)
              = map Inr [400, 3000, 200]"
    using three_calls_delays by simp
  have 3: "timeouts (snd (process_parts quiet_env \<lparr>role = ''model'', parts = Some three_calls\<rparr>
                              three_calls new_run))
             = [SetTimeout (Max (set [400, 3000, 200]))]"
    using three_calls_acting v3 w3 d3 by (rule run)
  have v2: "\<exists>p \<in> set two_clicks. valid_call p \<noteq> None"
    by (simp add: two_clicks_def click_part_def call_part_def valid_call_def no_part_def)
  have w2: "\<forall>a \<in> set (List.map_filter valid_call two_clicks). name a \<noteq> ''wait_5_seconds''"
    unfolding two_clicks_valid by simp
  have d2: "map getActionSettleDelay (List.map_filter valid_call two_clicks)
              = map Inr [400, 400]"
    using two_clicks_delays by simp
  have 2: "timeouts (snd (process_parts quiet_env \<lparr>role = ''model'', parts = Some two_clicks\<rparr>
                              two_clicks new_run))
             = [SetTimeout (Max (set [400, 400]))]"
    using two_clicks_acting v2 w2 d2 by (rule run)
  show ?thesis using 3 2 three_calls_delays two_clicks_delays by simp
qed

lemma broken_calls_acting: "acting_parts broken_calls"
  by (simp add: acting_parts_def broken_calls_def click_part_def call_part_def valid_call_def
      no_part_def settles_def getActionSettleDelay_def no_args_def)

theorem incomplete_call_skipped_witness:
  "for_calls quiet_env broken_calls [] new_run
     = for_calls quiet_env [call_part (Some ''click_at'') None, click_part] []
         (new_run\<lparr>effects := [LogWarning]\<rparr>)
   \<and> (\<exists>d. contents (snd (process_parts quiet_env \<lparr>role = ''model'', parts = Some broken_calls\<rparr>
                            broken_calls new_run))
          = [\<lparr>role = ''model'', parts = Some broken_calls\<rparr>,
             \<lparr>role = ''user'',
              parts = Some
                (map (response_part (currentUrl (snd (process_parts quiet_env
                        \<lparr>role = ''model'', parts = Some broken_calls\<rparr> broken_calls new_run))))
                   broken_calls
                 @ [image_part d])\<rparr>])
   \<and> response_part (Some ''about:blank'') (call_part None (Some no_args))
       = no_part\<lparr>functionResponse := Some (FunctionResponse None (Some ''about:blank''))\<rparr>"
proof -
  let ?c = "\<lparr>role = ''model'', parts = Some broken_calls\<rparr>"
  let ?p = "call_part None (Some no_args)"
  let ?fc = "FunctionCall None (Some no_args)"
  have p: "functionCall ?p = Some ?fc \<and> (call_name ?fc = None \<or> call_args ?fc = None)"
    by (simp add: call_part_def no_part_def)
  have 1: "fst (process_parts quiet_env ?c broken_calls new_run) = Inr Continue"
    using process_parts_ok [OF calm_on_True [OF quiet_env_calm(1)] stable_True
        quiet_env_calm(2) broken_calls_acting]
    by (rule ok_Continue)
  have f: "filter (\<lambda>p. functionCall p \<noteq> None) broken_calls = broken_calls"
    by (simp add: broken_calls_def click_part_def call_part_def no_part_def)
  have b: "broken_calls = ?p # [call_part (Some ''click_at'') None, click_part]"
    by (simp add: broken_calls_def)
  have e: "effects new_run = []" "contents new_run = []" by (simp_all add: new_run_def)
  note t = incomplete_call_skipped [of ?p ?fc quiet_env
      "[call_part (Some ''click_at'') None, click_part]" "[]" new_run ?c broken_calls
      "Some ''about:blank''"]
  show ?thesis
    using t p 1 unfolding f e b [symmetric] by simp
qed

end
